theory Spec2Isabelle
  imports Main "HOL-Library.Multiset"
begin

section \<open>Data model of the watcher\<close>

text \<open>
  A configuration is an arbitrary nested key/value structure (a Python dict of lists, dicts
  and primitives). The watcher never looks inside one itself: it hands configurations to
  \<^verbatim>\<open>sub_dict\<close> and \<^verbatim>\<open>dpath.util.delete\<close>, which are parameters of the model.
\<close>

datatype json =
    JNull
  | JBool bool
  | JNum int
  | JStr string
  | JList "json list"
  | JDict "(string \<times> json) list"

text \<open>An audit issue, of which the watcher only reads \<^verbatim>\<open>justified\<close>.\<close>

record Issue =
  issue :: string
  justified :: bool

text \<open>
  \<^verbatim>\<open>class ChangeItem\<close>. The items of a snapshot and the records of the buckets are objects
  of this one class.
\<close>

record ChangeItem =
  index :: string
  region :: string
  account :: string
  name :: string
  old_config :: json
  new_config :: json
  active :: bool
  audit_issues :: "Issue list"
  confirmed_new_issues :: "Issue list"
  confirmed_fixed_issues :: "Issue list"
  confirmed_existing_issues :: "Issue list"
  found_new_issue :: bool

text \<open>
  \<^verbatim>\<open>ChangeItem.__init__\<close>; the argument \<^verbatim>\<open>audit_issues\<close> may be \<^verbatim>\<open>None\<close>, and
  \<^verbatim>\<open>audit_issues or []\<close> turns that into the empty list.
\<close>

definition ChangeItem_init ::
  "string \<Rightarrow> string \<Rightarrow> string \<Rightarrow> string \<Rightarrow> json \<Rightarrow> json \<Rightarrow> bool \<Rightarrow> Issue list option \<Rightarrow> ChangeItem"
where
  "ChangeItem_init idx reg acc nm old_cfg new_cfg act issues =
     \<lparr> index = idx, region = reg, account = acc, name = nm,
       old_config = old_cfg, new_config = new_cfg, active = act,
       audit_issues = (case issues of None \<Rightarrow> [] | Some is \<Rightarrow> is),
       confirmed_new_issues = [], confirmed_fixed_issues = [],
       confirmed_existing_issues = [], found_new_issue = False \<rparr>"

text \<open>The property \<^verbatim>\<open>ChangeItem.config\<close>.\<close>

definition config :: "ChangeItem \<Rightarrow> json" where
  "config item = new_config item"

text \<open>
  \<^verbatim>\<open>ChangeItem.location\<close>: the tuple (index, account, region, name). Tuples are lists here,
  because the exception map is also keyed by the shorter tuples \<^verbatim>\<open>location[0:3]\<close>,
  \<^verbatim>\<open>location[0:2]\<close> and \<^verbatim>\<open>location[0:1]\<close>.
\<close>

type_synonym location = "string list"

definition location :: "ChangeItem \<Rightarrow> location" where
  "location item = [index item, account item, region item, name item]"

text \<open>
  \<^verbatim>\<open>ChangeItem.from_items\<close>. An item is an object, so \<^verbatim>\<open>not old_item\<close> holds exactly when
  it is \<^verbatim>\<open>None\<close>. The bare \<^verbatim>\<open>return\<close> answers \<^verbatim>\<open>None\<close>.
\<close>

definition from_items :: "ChangeItem option \<Rightarrow> ChangeItem option \<Rightarrow> ChangeItem option" where
  "from_items old_item new_item =
     (if old_item = None \<and> new_item = None then None
      else
        (case (if new_item \<noteq> None then new_item else old_item) of
           None \<Rightarrow> None
         | Some valid_item \<Rightarrow>
             (let act = (if new_item \<noteq> None then True else False);
                  old_cfg = (case old_item of Some i \<Rightarrow> config i | None \<Rightarrow> JDict []);
                  new_cfg = (case new_item of Some i \<Rightarrow> config i | None \<Rightarrow> JDict [])
              in Some (ChangeItem_init (index valid_item) (region valid_item)
                         (account valid_item) (name valid_item)
                         old_cfg new_cfg act (Some (audit_issues valid_item))))))"

text \<open>
  \<^verbatim>\<open>class Watcher\<close>: the fields that \<^verbatim>\<open>__init__\<close> sets, apart from the datastore handle.
\<close>

record Watcher =
  accounts :: "string list"
  debug :: bool
  created_items :: "ChangeItem list"
  deleted_items :: "ChangeItem list"
  changed_items :: "ChangeItem list"
  ephemeral_items :: "ChangeItem list"
  rate_limit_delay :: int
  interval :: int
  honor_ephemerals :: bool
  ephemeral_paths :: "string list"

text \<open>\<^verbatim>\<open>Watcher.__init__\<close>, given the account names.\<close>

definition Watcher_init :: "string list \<Rightarrow> bool \<Rightarrow> Watcher" where
  "Watcher_init accs dbg =
     \<lparr> accounts = accs, debug = dbg,
       created_items = [], deleted_items = [], changed_items = [], ephemeral_items = [],
       rate_limit_delay = 0, interval = 15,
       honor_ephemerals = False, ephemeral_paths = [] \<rparr>"

definition ephemerals_skipped :: "Watcher \<Rightarrow> bool" where
  "ephemerals_skipped w = honor_ephemerals w"


section \<open>The rate-limited call\<close>

text \<open>
  What one attempt of \<^verbatim>\<open>awsfunc\<close> does: it returns a value or raises. The two exception
  classes the wrapper catches carry an error code.
\<close>

datatype exn = BotoServerError string | ClientError string | OtherException string

datatype 'a outcome = Returns 'a | Raises exn

text \<open>The two \<^verbatim>\<open>except\<close> clauses retry exactly the errors whose code is Throttling.\<close>

fun is_throttling :: "exn \<Rightarrow> bool" where
  "is_throttling (BotoServerError code) = (code = ''Throttling'')"
| "is_throttling (ClientError code) = (code = ''Throttling'')"
| "is_throttling (OtherException msg) = False"

definition increase_delay :: "Watcher \<Rightarrow> Watcher" where
  "increase_delay w =
     (if rate_limit_delay w = 0 then w\<lparr>rate_limit_delay := 1\<rparr>
      else if rate_limit_delay w < 4 then w\<lparr>rate_limit_delay := rate_limit_delay w * 2\<rparr>
      else w)"

text \<open>
  \<^verbatim>\<open>wrap_aws_rate_limited_call\<close>. The list gives the outcome of each successive attempt of
  \<^verbatim>\<open>awsfunc\<close>; the \<^verbatim>\<open>while True\<close> loop consumes one per iteration. The answer is
  \<^verbatim>\<open>None\<close> when the loop is still retrying after the last listed outcome. Otherwise it
  holds the seconds slept before each attempt (0 when \<^verbatim>\<open>time.sleep\<close> is not called), the
  value returned or the exception raised, and the watcher.
\<close>

fun wrap_aws_rate_limited_call ::
  "Watcher \<Rightarrow> 'a outcome list \<Rightarrow> (int list \<times> (exn + 'a) \<times> Watcher) option"
where
  "wrap_aws_rate_limited_call w [] = None"
| "wrap_aws_rate_limited_call w (out # rest) =
     (let slept = (if rate_limit_delay w > 0 then rate_limit_delay w else 0) in
      case out of
        Returns retval \<Rightarrow>
          Some ([slept], Inr retval,
                if rate_limit_delay w > 0 then w\<lparr>rate_limit_delay := 0\<rparr> else w)
      | Raises e \<Rightarrow>
          if is_throttling e then
            (case wrap_aws_rate_limited_call (increase_delay w) rest of
               None \<Rightarrow> None
             | Some (waits, res, w') \<Rightarrow> Some (slept # waits, res, w'))
          else Some ([slept], Inl e, w))"

text \<open>An attempt that is answered with a Throttling error.\<close>

fun throttled :: "'a outcome \<Rightarrow> bool" where
  "throttled (Returns v) = False"
| "throttled (Raises e) = is_throttling e"

text \<open>
  The sequence of the specification: no wait before the first attempt, then 1, 2, 4, 4, ...
\<close>

definition spec_wait :: "nat \<Rightarrow> int" where
  "spec_wait k = (if k = 0 then 0 else if k = 1 then 1 else if k = 2 then 2 else 4)"

text \<open>The delays the code goes through from a given delay.\<close>

definition next_delay :: "int \<Rightarrow> int" where
  "next_delay d = (if d = 0 then 1 else if d < 4 then d * 2 else d)"

fun waits_from :: "int \<Rightarrow> nat \<Rightarrow> int list" where
  "waits_from d 0 = []"
| "waits_from d (Suc n) = d # waits_from (next_delay d) n"


section \<open>Change detection flags\<close>

text \<open>\<^verbatim>\<open>is_changed\<close> returns the first nonempty list, or the last one.\<close>

definition is_changed :: "Watcher \<Rightarrow> ChangeItem list" where
  "is_changed w =
     (if deleted_items w \<noteq> [] then deleted_items w
      else if created_items w \<noteq> [] then created_items w
      else changed_items w)"

text \<open>The truth value Python gives a list.\<close>

definition truthy :: "'a list \<Rightarrow> bool" where
  "truthy xs = (xs \<noteq> [])"

text \<open>
  The inner loop of \<^verbatim>\<open>issues_found\<close> over \<^verbatim>\<open>confirmed_existing_issues\<close>, on the flag
  \<^verbatim>\<open>has_unjustified_issue\<close>; its \<^verbatim>\<open>break\<close> leaves this loop only.
\<close>

fun scan_existing :: "Issue list \<Rightarrow> bool \<Rightarrow> bool" where
  "scan_existing [] unjust = unjust"
| "scan_existing (i # rest) unjust =
     (if \<not> justified i then True else scan_existing rest unjust)"

text \<open>
  The outer loop of \<^verbatim>\<open>issues_found\<close> on the flags
  \<^verbatim>\<open>(has_issues, has_new_issue, has_unjustified_issue)\<close>.
\<close>

fun issues_found_loop :: "ChangeItem list \<Rightarrow> bool \<times> bool \<times> bool \<Rightarrow> bool \<times> bool \<times> bool" where
  "issues_found_loop [] flags = flags"
| "issues_found_loop (item # rest) (has_issues, has_new_issue, has_unjustified_issue) =
     (if audit_issues item \<noteq> [] then
        (if found_new_issue item then (True, True, True)
         else issues_found_loop rest
                (True, has_new_issue,
                 scan_existing (confirmed_existing_issues item) has_unjustified_issue))
      else issues_found_loop rest (has_issues, has_new_issue, has_unjustified_issue))"

definition issues_found :: "Watcher \<Rightarrow> bool \<times> bool \<times> bool" where
  "issues_found w = issues_found_loop (created_items w @ changed_items w) (False, False, False)"

text \<open>
  The scan of the specification's test: the same loop with the outer \<^verbatim>\<open>break\<close> removed,
  so every record is visited.
\<close>

fun issues_found_full :: "ChangeItem list \<Rightarrow> bool \<times> bool \<times> bool \<Rightarrow> bool \<times> bool \<times> bool" where
  "issues_found_full [] flags = flags"
| "issues_found_full (item # rest) (has_issues, has_new_issue, has_unjustified_issue) =
     (if audit_issues item \<noteq> [] then
        (if found_new_issue item then
           issues_found_full rest
             (True, True, scan_existing (confirmed_existing_issues item) True)
         else issues_found_full rest
                (True, has_new_issue,
                 scan_existing (confirmed_existing_issues item) has_unjustified_issue))
      else issues_found_full rest (has_issues, has_new_issue, has_unjustified_issue))"


section \<open>The exception map\<close>

text \<open>
  The exception map is a dict from locations, of one to four components, to the
  exception caught there; the exception is kept as its message.
\<close>

type_synonym exception_map = "location \<rightharpoonup> string"

text \<open>\<^verbatim>\<open>slurp_exception\<close>: the entry is written whether or not the key was there.\<close>

definition slurp_exception :: "location \<Rightarrow> string \<Rightarrow> exception_map \<Rightarrow> exception_map" where
  "slurp_exception loc exception m = m(loc \<mapsto> exception)"

text \<open>\<^verbatim>\<open>locationInExceptionMap\<close>; \<^verbatim>\<open>item_location[0:n]\<close> is \<^term>\<open>take n item_location\<close>.\<close>

definition locationInExceptionMap :: "location \<Rightarrow> exception_map \<Rightarrow> bool" where
  "locationInExceptionMap item_location m =
     (if m item_location \<noteq> None then True
      else if m (take 3 item_location) \<noteq> None then True
      else if m (take 2 item_location) \<noteq> None then True
      else if m (take 1 item_location) \<noteq> None then True
      else False)"


section \<open>The three passes of the diff\<close>

text \<open>
  \<^verbatim>\<open>{item.location(): item for item in items}\<close>: a later item replaces an earlier one at
  the same location.
\<close>

definition dict_of :: "ChangeItem list \<Rightarrow> (location \<rightharpoonup> ChangeItem)" where
  "dict_of items = fold (\<lambda>item m. m(location item \<mapsto> item)) items Map.empty"

text \<open>The keys of that dict, each once.\<close>

definition keys_of :: "ChangeItem list \<Rightarrow> location list" where
  "keys_of items = remdups (map location items)"

text \<open>
  Python does not fix the order in which \<^verbatim>\<open>list(a_set)\<close> enumerates a set. The passes
  take the enumeration as a parameter \<open>order\<close>, which rearranges the list of the set's
  elements; all that is known of it is that it keeps every element, once.
\<close>

definition enumerates :: "(location list \<Rightarrow> location list) \<Rightarrow> bool" where
  "enumerates order \<longleftrightarrow> (\<forall>ls. mset (order ls) = mset ls)"

text \<open>A lookup \<^verbatim>\<open>d[key]\<close> raises \<^verbatim>\<open>KeyError\<close> on a missing key.\<close>

datatype error = KeyError location

text \<open>\<^verbatim>\<open>[d[key] for key in keys]\<close>\<close>

fun lookup_all :: "(location \<rightharpoonup> ChangeItem) \<Rightarrow> location list \<Rightarrow> error + ChangeItem list" where
  "lookup_all d [] = Inr []"
| "lookup_all d (l # ls) =
     (case d l of
        None \<Rightarrow> Inl (KeyError l)
      | Some item \<Rightarrow>
          (case lookup_all d ls of
             Inl e \<Rightarrow> Inl e
           | Inr items \<Rightarrow> Inr (item # items)))"

text \<open>
  The body of the loop of \<^verbatim>\<open>find_deleted\<close>. The buckets hold records; \<^verbatim>\<open>from_items\<close>
  has a record for every present item (lemma \<open>from_items_old\<close> below), so the other case
  does not arise.
\<close>

definition append_deleted :: "ChangeItem \<Rightarrow> Watcher \<Rightarrow> Watcher" where
  "append_deleted item w =
     (case from_items (Some item) None of
        Some deleted_change_item \<Rightarrow> w\<lparr>deleted_items := deleted_items w @ [deleted_change_item]\<rparr>
      | None \<Rightarrow> w)"

definition find_deleted ::
  "(location list \<Rightarrow> location list) \<Rightarrow> Watcher \<Rightarrow> ChangeItem list \<Rightarrow> ChangeItem list \<Rightarrow>
   exception_map \<Rightarrow> error + Watcher"
where
  "find_deleted order w previous current m =
     (let prev_map = dict_of previous;
          item_locations = order [l \<leftarrow> keys_of previous. l \<notin> set (keys_of current)];
          item_locations = [l \<leftarrow> item_locations. \<not> locationInExceptionMap l m]
      in case lookup_all prev_map item_locations of
           Inl e \<Rightarrow> Inl e
         | Inr list_deleted_items \<Rightarrow> Inr (fold append_deleted list_deleted_items w))"

text \<open>The body of the loop of \<^verbatim>\<open>find_new\<close>.\<close>

definition append_created :: "ChangeItem \<Rightarrow> Watcher \<Rightarrow> Watcher" where
  "append_created item w =
     (case from_items None (Some item) of
        Some new_change_item \<Rightarrow> w\<lparr>created_items := created_items w @ [new_change_item]\<rparr>
      | None \<Rightarrow> w)"

definition find_new ::
  "(location list \<Rightarrow> location list) \<Rightarrow> Watcher \<Rightarrow> ChangeItem list \<Rightarrow> ChangeItem list \<Rightarrow>
   error + Watcher"
where
  "find_new order w previous current =
     (let curr_map = dict_of current;
          item_locations = order [l \<leftarrow> keys_of current. l \<notin> set (keys_of previous)]
      in case lookup_all curr_map item_locations of
           Inl e \<Rightarrow> Inl e
         | Inr list_new_items \<Rightarrow> Inr (fold append_created list_new_items w))"

text \<open>
  \<^verbatim>\<open>dpath.util.delete(cfg, path, separator='$')\<close> inside \<^verbatim>\<open>try ... except PathNotFound: pass\<close>.
  The library call is the parameter \<open>delete\<close>; it answers \<^verbatim>\<open>None\<close> for \<^verbatim>\<open>PathNotFound\<close>,
  and then the configuration stays as it was.
\<close>

definition delete_path :: "(json \<Rightarrow> string \<Rightarrow> json option) \<Rightarrow> json \<Rightarrow> string \<Rightarrow> json" where
  "delete_path delete cfg path = (case delete cfg path of Some cfg' \<Rightarrow> cfg' | None \<Rightarrow> cfg)"

text \<open>
  The two nested iterations over \<^verbatim>\<open>self.ephemeral_paths\<close> and over the two copied
  configurations.
\<close>

definition filter_ephemeral ::
  "(json \<Rightarrow> string \<Rightarrow> json option) \<Rightarrow> string list \<Rightarrow> json \<times> json \<Rightarrow> json \<times> json"
where
  "filter_ephemeral delete paths cfgs =
     fold (\<lambda>path (prev_cfg, curr_cfg).
             (delete_path delete prev_cfg path, delete_path delete curr_cfg path))
          paths cfgs"

text \<open>
  The body of the loop of \<^verbatim>\<open>find_modified\<close> for one location. \<open>sub_dict\<close> is the
  canonicalisation of \<^verbatim>\<open>common.utils\<close>, a parameter. The deep copies are the items with
  the filtered configuration in place of their own.
\<close>

definition modified_step ::
  "(json \<Rightarrow> 'c) \<Rightarrow> (json \<Rightarrow> string \<Rightarrow> json option) \<Rightarrow> ChangeItem \<Rightarrow> ChangeItem \<Rightarrow>
   Watcher \<Rightarrow> Watcher"
where
  "modified_step sub_dict delete prev_item curr_item w =
     (let eph_change_item =
            (if sub_dict (config prev_item) \<noteq> sub_dict (config curr_item)
             then from_items (Some prev_item) (Some curr_item) else None)
      in
      if ephemerals_skipped w then
        (let (prev_cfg, curr_cfg) =
               filter_ephemeral delete (ephemeral_paths w) (config prev_item, config curr_item);
             dur_prev_item = prev_item\<lparr>new_config := prev_cfg\<rparr>;
             dur_curr_item = curr_item\<lparr>new_config := curr_cfg\<rparr>;
             dur_change_item =
               (if sub_dict (config dur_prev_item) \<noteq> sub_dict (config dur_curr_item)
                then from_items (Some dur_prev_item) (Some dur_curr_item) else None);
             w1 = (case eph_change_item of
                     Some e \<Rightarrow> w\<lparr>ephemeral_items := ephemeral_items w @ [e]\<rparr>
                   | None \<Rightarrow> w);
             w2 = (case dur_change_item of
                     Some d \<Rightarrow> w1\<lparr>changed_items := changed_items w1 @ [d]\<rparr>
                   | None \<Rightarrow> w1)
         in w2)
      else
        (case eph_change_item of
           Some e \<Rightarrow> w\<lparr>changed_items := changed_items w @ [e]\<rparr>
         | None \<Rightarrow> w))"

text \<open>The loop of \<^verbatim>\<open>find_modified\<close> over the locations, with its two lookups.\<close>

fun find_modified_loop ::
  "(json \<Rightarrow> 'c) \<Rightarrow> (json \<Rightarrow> string \<Rightarrow> json option) \<Rightarrow>
   (location \<rightharpoonup> ChangeItem) \<Rightarrow> (location \<rightharpoonup> ChangeItem) \<Rightarrow> location list \<Rightarrow>
   Watcher \<Rightarrow> error + Watcher"
where
  "find_modified_loop sub_dict delete prev_map curr_map [] w = Inr w"
| "find_modified_loop sub_dict delete prev_map curr_map (l # ls) w =
     (case prev_map l of
        None \<Rightarrow> Inl (KeyError l)
      | Some prev_item \<Rightarrow>
          (case curr_map l of
             None \<Rightarrow> Inl (KeyError l)
           | Some curr_item \<Rightarrow>
               find_modified_loop sub_dict delete prev_map curr_map ls
                 (modified_step sub_dict delete prev_item curr_item w)))"

definition find_modified ::
  "(location list \<Rightarrow> location list) \<Rightarrow> (json \<Rightarrow> 'c) \<Rightarrow> (json \<Rightarrow> string \<Rightarrow> json option) \<Rightarrow>
   Watcher \<Rightarrow> ChangeItem list \<Rightarrow> ChangeItem list \<Rightarrow> exception_map \<Rightarrow> error + Watcher"
where
  "find_modified order sub_dict delete w previous current m =
     (let prev_map = dict_of previous;
          curr_map = dict_of current;
          item_locations = order [l \<leftarrow> keys_of current. l \<in> set (keys_of previous)];
          item_locations = [l \<leftarrow> item_locations. \<not> locationInExceptionMap l m]
      in find_modified_loop sub_dict delete prev_map curr_map item_locations w)"

text \<open>
  \<^verbatim>\<open>find_changes\<close>; \<open>prev\<close> is what \<^verbatim>\<open>read_previous_items\<close> reads from the datastore.
\<close>

definition find_changes ::
  "(location list \<Rightarrow> location list) \<Rightarrow> (json \<Rightarrow> 'c) \<Rightarrow> (json \<Rightarrow> string \<Rightarrow> json option) \<Rightarrow>
   Watcher \<Rightarrow> ChangeItem list \<Rightarrow> ChangeItem list \<Rightarrow> exception_map \<Rightarrow> error + Watcher"
where
  "find_changes order sub_dict delete w prev current m =
     (case find_deleted order w prev current m of
        Inl e \<Rightarrow> Inl e
      | Inr w1 \<Rightarrow>
          (case find_new order w1 prev current of
             Inl e \<Rightarrow> Inl e
           | Inr w2 \<Rightarrow> find_modified order sub_dict delete w2 prev current m))"

text \<open>A snapshot has one item per location: the location is the key of a resource.\<close>

definition snapshot :: "ChangeItem list \<Rightarrow> bool" where
  "snapshot items \<longleftrightarrow> distinct (map location items)"


section \<open>Saving\<close>

text \<open>
  The datastore is an external collaborator. The model keeps the calls of
  \<^verbatim>\<open>datastore.store\<close> it has received, in order, each with its arguments.
\<close>

record store_call =
  st_index :: string
  st_region :: string
  st_account :: string
  st_name :: string
  st_active :: bool
  st_config :: json
  st_new_issues :: "Issue list"

type_synonym Datastore = "store_call list"

text \<open>\<^verbatim>\<open>ChangeItem.save\<close>\<close>

definition ChangeItem_save :: "ChangeItem \<Rightarrow> Datastore \<Rightarrow> Datastore" where
  "ChangeItem_save item ds =
     ds @ [\<lparr> st_index = index item, st_region = region item, st_account = account item,
             st_name = name item, st_active = active item, st_config = new_config item,
             st_new_issues = audit_issues item \<rparr>]"

text \<open>\<^verbatim>\<open>Watcher.save\<close>\<close>

definition save :: "Watcher \<Rightarrow> Datastore \<Rightarrow> Datastore" where
  "save w ds =
     (let ds1 = fold ChangeItem_save (created_items w @ deleted_items w) ds;
          changeset = (if ephemerals_skipped w then ephemeral_items w else changed_items w)
      in fold ChangeItem_save changeset ds1)"


section \<open>Concrete inputs for the closed examples\<close>

text \<open>
  A canonicalisation and a path deletion to run the examples with: the identity, and the
  removal of a top-level key, which is what \<^verbatim>\<open>dpath.util.delete\<close> does for a path without
  separator.
\<close>

definition example_sub_dict :: "json \<Rightarrow> json" where
  "example_sub_dict cfg = cfg"

fun example_delete :: "json \<Rightarrow> string \<Rightarrow> json option" where
  "example_delete (JDict kvs) path =
     (if path \<in> set (map fst kvs) then Some (JDict [kv \<leftarrow> kvs. fst kv \<noteq> path]) else None)"
| "example_delete cfg path = None"

definition example_order :: "location list \<Rightarrow> location list" where
  "example_order ls = rev ls"

text \<open>A security group as recorded, and as found now with another rule and another etag.\<close>

definition sg_old :: ChangeItem where
  "sg_old = ChangeItem_init ''sg'' ''us-east-1'' ''a1'' ''sg-1'' (JDict [])
     (JDict [(''rules'', JList [JStr ''22'']), (''etag'', JStr ''v1'')]) False None"

definition sg_new :: ChangeItem where
  "sg_new = ChangeItem_init ''sg'' ''us-east-1'' ''a1'' ''sg-1'' (JDict [])
     (JDict [(''rules'', JList [JStr ''22'', JStr ''80'']), (''etag'', JStr ''v2'')]) False None"

text \<open>The same group found with only its etag changed.\<close>

definition sg_touched :: ChangeItem where
  "sg_touched = ChangeItem_init ''sg'' ''us-east-1'' ''a1'' ''sg-1'' (JDict [])
     (JDict [(''rules'', JList [JStr ''22'']), (''etag'', JStr ''v2'')]) False None"

text \<open>A second group.\<close>

definition sg_other :: ChangeItem where
  "sg_other = ChangeItem_init ''sg'' ''us-east-1'' ''a1'' ''sg-2'' (JDict [])
     (JDict [(''rules'', JList [JStr ''443''])]) False None"

text \<open>A watcher as constructed, with the two settings of a subclass.\<close>

definition fresh_watcher :: "bool \<Rightarrow> string list \<Rightarrow> Watcher" where
  "fresh_watcher honor paths =
     (Watcher_init [''a1''] False)\<lparr>honor_ephemerals := honor, ephemeral_paths := paths\<rparr>"


section \<open>Notions used in the statements\<close>

text \<open>
  The locations each pass visits: the two assignments to \<^verbatim>\<open>item_locations\<close> in
  \<^verbatim>\<open>find_deleted\<close> and \<^verbatim>\<open>find_modified\<close>, the single one in \<^verbatim>\<open>find_new\<close>.
\<close>

definition deleted_locations ::
  "(location list \<Rightarrow> location list) \<Rightarrow> ChangeItem list \<Rightarrow> ChangeItem list \<Rightarrow>
   exception_map \<Rightarrow> location list"
where
  "deleted_locations order previous current m =
     [l \<leftarrow> order [l \<leftarrow> keys_of previous. l \<notin> set (keys_of current)]. \<not> locationInExceptionMap l m]"

definition new_locations ::
  "(location list \<Rightarrow> location list) \<Rightarrow> ChangeItem list \<Rightarrow> ChangeItem list \<Rightarrow> location list"
where
  "new_locations order previous current =
     order [l \<leftarrow> keys_of current. l \<notin> set (keys_of previous)]"

definition modified_locations ::
  "(location list \<Rightarrow> location list) \<Rightarrow> ChangeItem list \<Rightarrow> ChangeItem list \<Rightarrow>
   exception_map \<Rightarrow> location list"
where
  "modified_locations order previous current m =
     [l \<leftarrow> order [l \<leftarrow> keys_of current. l \<in> set (keys_of previous)]. \<not> locationInExceptionMap l m]"

text \<open>
  The four buckets as \<^verbatim>\<open>__init__\<close> leaves them. The passes only ever append to the buckets.
\<close>

definition no_items :: "Watcher \<Rightarrow> bool" where
  "no_items w \<longleftrightarrow>
     created_items w = [] \<and> deleted_items w = [] \<and> changed_items w = [] \<and>
     ephemeral_items w = []"

text \<open>
  The watcher \<open>w\<close> with the buckets of \<open>a\<close> in front of its own, and a watcher with its
  buckets emptied.
\<close>

definition prepend_items :: "Watcher \<Rightarrow> Watcher \<Rightarrow> Watcher" where
  "prepend_items a w =
     w\<lparr>created_items := created_items a @ created_items w,
       deleted_items := deleted_items a @ deleted_items w,
       changed_items := changed_items a @ changed_items w,
       ephemeral_items := ephemeral_items a @ ephemeral_items w\<rparr>"

definition clear_items :: "Watcher \<Rightarrow> Watcher" where
  "clear_items w =
     w\<lparr>created_items := [], deleted_items := [], changed_items := [], ephemeral_items := []\<rparr>"


section \<open>More concrete values for the closed examples\<close>

text \<open>An account-wide failure of the slurp, recorded under (index, account).\<close>

definition example_exceptions :: exception_map where
  "example_exceptions = [[''sg'', ''a1''] \<mapsto> ''AccessDenied'']"

text \<open>
  The records of the examples: the change of \<open>sg_old\<close> into \<open>sg_new\<close> with all its
  paths and without the etag, the change into \<open>sg_touched\<close>, and the creation of
  \<open>sg_other\<close>.
\<close>

definition sg_change_full :: ChangeItem where
  "sg_change_full = ChangeItem_init ''sg'' ''us-east-1'' ''a1'' ''sg-1''
     (JDict [(''rules'', JList [JStr ''22'']), (''etag'', JStr ''v1'')])
     (JDict [(''rules'', JList [JStr ''22'', JStr ''80'']), (''etag'', JStr ''v2'')]) True (Some [])"

definition sg_change_durable :: ChangeItem where
  "sg_change_durable = ChangeItem_init ''sg'' ''us-east-1'' ''a1'' ''sg-1''
     (JDict [(''rules'', JList [JStr ''22''])])
     (JDict [(''rules'', JList [JStr ''22'', JStr ''80''])]) True (Some [])"

definition sg_change_touched :: ChangeItem where
  "sg_change_touched = ChangeItem_init ''sg'' ''us-east-1'' ''a1'' ''sg-1''
     (JDict [(''rules'', JList [JStr ''22'']), (''etag'', JStr ''v1'')])
     (JDict [(''rules'', JList [JStr ''22'']), (''etag'', JStr ''v2'')]) True (Some [])"

definition sg_other_created :: ChangeItem where
  "sg_other_created = ChangeItem_init ''sg'' ''us-east-1'' ''a1'' ''sg-2''
     (JDict []) (JDict [(''rules'', JList [JStr ''443''])]) True (Some [])"

text \<open>
  Records as the auditor may leave them: the flag \<^verbatim>\<open>found_new_issue\<close> on a record without
  audit issues, a record with an unjustified known issue, and a record with a new issue.
\<close>

definition open_port :: Issue where
  "open_port = \<lparr> issue = ''port open to the world'', justified = False \<rparr>"

definition unaudited_new_issue :: ChangeItem where
  "unaudited_new_issue = sg_other_created\<lparr>found_new_issue := True\<rparr>"

definition audited_existing :: ChangeItem where
  "audited_existing = sg_other_created\<lparr>audit_issues := [open_port], confirmed_existing_issues := [open_port]\<rparr>"

definition audited_new_issue :: ChangeItem where
  "audited_new_issue = sg_change_full\<lparr>audit_issues := [open_port], found_new_issue := True\<rparr>"


section \<open>Records built from items\<close>

lemma from_items_new: "from_items old_item (Some n) =
  Some (ChangeItem_init (index n) (region n) (account n) (name n)
         (case old_item of Some i \<Rightarrow> config i | None \<Rightarrow> JDict []) (config n) True
         (Some (audit_issues n)))"
  by (simp add: from_items_def)

lemma from_items_old: "from_items (Some p) None =
  Some (ChangeItem_init (index p) (region p) (account p) (name p)
         (config p) (JDict []) False (Some (audit_issues p)))"
  by (simp add: from_items_def)

lemma Some_the_from_items_new: "Some (the (from_items old_item (Some c))) = from_items old_item (Some c)"
  by (simp add: from_items_new)

lemma Some_the_from_items_old: "Some (the (from_items (Some p) None)) = from_items (Some p) None"
  by (simp add: from_items_old)

lemma location_from_items_old: "location (the (from_items (Some p) None)) = location p"
  by (simp add: from_items_old ChangeItem_init_def location_def)

lemma location_from_items_new: "location (the (from_items old_item (Some c))) = location c"
  by (simp add: from_items_new ChangeItem_init_def location_def)

lemma location_new_config: "location (c\<lparr>new_config := x\<rparr>) = location c"
  by (simp add: location_def)

text \<open>
  C9. \<^verbatim>\<open>ChangeItem.from_items\<close> with two absent items gives no record: it answers
  \<^verbatim>\<open>None\<close> and raises nothing. With an item present it gives a record, which is active
  exactly when the new item exists; its \<^verbatim>\<open>new_config\<close> is the \<^verbatim>\<open>new_config\<close> field of
  the new item, or the empty dict when there is none, its \<^verbatim>\<open>old_config\<close> is the
  \<^verbatim>\<open>new_config\<close> field of the old item, or the empty dict, and its \<^verbatim>\<open>config\<close> is
  that same new configuration. The property \<^verbatim>\<open>config\<close> of every item is its
  \<^verbatim>\<open>new_config\<close> field.
\<close>

theorem from_items_record:
  "from_items None None = None \<and>
   (old_item \<noteq> None \<or> new_item \<noteq> None \<longrightarrow>
      (\<exists>r. from_items old_item new_item = Some r \<and>
           (active r \<longleftrightarrow> new_item \<noteq> None) \<and>
           new_config r = (case new_item of Some i \<Rightarrow> new_config i | None \<Rightarrow> JDict []) \<and>
           old_config r = (case old_item of Some i \<Rightarrow> new_config i | None \<Rightarrow> JDict []) \<and>
           config r = (case new_item of Some i \<Rightarrow> new_config i | None \<Rightarrow> JDict []))) \<and>
   config item = new_config item"
proof (cases new_item)
  case None
  then show ?thesis
    by (cases old_item) (simp_all add: from_items_def ChangeItem_init_def config_def)
next
  case (Some n)
  then show ?thesis
    by (cases old_item) (simp_all add: from_items_def ChangeItem_init_def config_def)
qed

text \<open>
  C9 at concrete items: a deleted group gives an inactive record with the empty dict as
  its configuration, a changed group an active record with the new configuration, which
  is also what \<^verbatim>\<open>config\<close> reads off the new item.
\<close>

theorem from_items_record_witness:
  "from_items None None = None \<and>
   from_items (Some sg_old) None = Some (ChangeItem_init ''sg'' ''us-east-1'' ''a1'' ''sg-1''
      (JDict [(''rules'', JList [JStr ''22'']), (''etag'', JStr ''v1'')]) (JDict [])
      False (Some [])) \<and>
   (\<exists>r. from_items (Some sg_old) (Some sg_new) = Some r \<and> active r \<and>
        new_config r = JDict [(''rules'', JList [JStr ''22'', JStr ''80'']), (''etag'', JStr ''v2'')] \<and>
        old_config r = JDict [(''rules'', JList [JStr ''22'']), (''etag'', JStr ''v1'')] \<and>
        config r = JDict [(''rules'', JList [JStr ''22'', JStr ''80'']), (''etag'', JStr ''v2'')]) \<and>
   config sg_new = JDict [(''rules'', JList [JStr ''22'', JStr ''80'']), (''etag'', JStr ''v2'')]"
proof -
  have d: "from_items (Some sg_old) None = Some (ChangeItem_init ''sg'' ''us-east-1'' ''a1'' ''sg-1''
      (JDict [(''rules'', JList [JStr ''22'']), (''etag'', JStr ''v1'')]) (JDict [])
      False (Some []))"
    by (simp add: from_items_def sg_old_def ChangeItem_init_def config_def)
  have n: "new_config sg_new =
             JDict [(''rules'', JList [JStr ''22'', JStr ''80'']), (''etag'', JStr ''v2'')]"
    and o: "new_config sg_old = JDict [(''rules'', JList [JStr ''22'']), (''etag'', JStr ''v1'')]"
    by (simp_all add: sg_new_def sg_old_def ChangeItem_init_def)
  show ?thesis
    using from_items_record [of "Some sg_old" "Some sg_new" sg_new] d n o by simp
qed


section \<open>The waits of the rate-limited call\<close>

lemma increase_delay_eq: "increase_delay w = w\<lparr>rate_limit_delay := next_delay (rate_limit_delay w)\<rparr>"
  by (simp add: increase_delay_def next_delay_def)

lemma next_delay_nonneg: "0 \<le> d \<Longrightarrow> 0 \<le> next_delay d"
  by (simp add: next_delay_def)

lemma wrap_throttled_then_returns:
  "\<forall>out \<in> set outs. throttled out \<Longrightarrow> 0 \<le> rate_limit_delay w \<Longrightarrow>
   wrap_aws_rate_limited_call w (outs @ [Returns v]) =
     Some (waits_from (rate_limit_delay w) (Suc (length outs)), Inr v, w\<lparr>rate_limit_delay := 0\<rparr>)"
proof (induction outs arbitrary: w)
  case Nil
  then show ?case by (cases "rate_limit_delay w = 0") simp_all
next
  case (Cons out outs)
  from Cons.prems(1) obtain e where out: "out = Raises e" and thr: "is_throttling e"
    by (cases out) auto
  have rest: "\<forall>out \<in> set outs. throttled out" using Cons.prems(1) by simp
  have nn: "0 \<le> rate_limit_delay (increase_delay w)"
    using Cons.prems(2) by (simp add: increase_delay_eq next_delay_nonneg)
  have slept: "(if rate_limit_delay w > 0 then rate_limit_delay w else 0) = rate_limit_delay w"
    using Cons.prems(2) by simp
  show ?case
    using Cons.IH [OF rest nn] out thr slept
    by (simp add: increase_delay_eq)
qed

lemma wrap_throttled_then_raises:
  "\<forall>out \<in> set outs. throttled out \<Longrightarrow> 0 \<le> rate_limit_delay w \<Longrightarrow> \<not> is_throttling e \<Longrightarrow>
   wrap_aws_rate_limited_call w (outs @ [Raises e] :: 'a outcome list) =
     Some (waits_from (rate_limit_delay w) (Suc (length outs)), Inl e,
           (increase_delay ^^ length outs) w)"
proof (induction outs arbitrary: w)
  case Nil
  then show ?case by simp
next
  case (Cons out outs)
  from Cons.prems(1) obtain e' where out: "out = Raises e'" and thr: "is_throttling e'"
    by (cases out) auto
  have rest: "\<forall>out \<in> set outs. throttled out" using Cons.prems(1) by simp
  have nn: "0 \<le> rate_limit_delay (increase_delay w)"
    using Cons.prems(2) by (simp add: increase_delay_eq next_delay_nonneg)
  have slept: "(if rate_limit_delay w > 0 then rate_limit_delay w else 0) = rate_limit_delay w"
    using Cons.prems(2) by simp
  have d: "rate_limit_delay (increase_delay w) = next_delay (rate_limit_delay w)"
    by (simp add: increase_delay_eq)
  show ?case
    using Cons.IH [OF rest nn Cons.prems(3)] out thr slept
    by (simp add: d funpow_swap1)
qed

lemma next_delay_spec: "next_delay (spec_wait j) = spec_wait (Suc j)"
  by (simp add: next_delay_def spec_wait_def)

lemma waits_from_spec: "waits_from (spec_wait j) n = map (\<lambda>k. spec_wait (j + k)) [0..<n]"
proof (induction n arbitrary: j)
  case 0
  show ?case by simp
next
  case (Suc n)
  have "waits_from (spec_wait j) (Suc n) = spec_wait j # waits_from (spec_wait (Suc j)) n"
    by (simp add: next_delay_spec)
  also have "\<dots> = spec_wait j # map (\<lambda>k. spec_wait (Suc j + k)) [0..<n]"
    by (simp only: Suc.IH)
  also have "\<dots> = map (\<lambda>k. spec_wait (j + k)) [0..<Suc n]"
    by (simp only: map_upt_Suc) simp
  finally show ?case .
qed

lemma waits_from_fresh: "waits_from 0 n = map spec_wait [0..<n]"
  using waits_from_spec [of 0 n] by (simp add: spec_wait_def)

lemma increase_delay_funpow:
  "(increase_delay ^^ n) (w\<lparr>rate_limit_delay := spec_wait j\<rparr>) =
     w\<lparr>rate_limit_delay := spec_wait (j + n)\<rparr>"
proof (induction n arbitrary: j)
  case 0
  show ?case by simp
next
  case (Suc n)
  have "(increase_delay ^^ Suc n) (w\<lparr>rate_limit_delay := spec_wait j\<rparr>) =
        (increase_delay ^^ n) (increase_delay (w\<lparr>rate_limit_delay := spec_wait j\<rparr>))"
    by (simp only: funpow_Suc_right o_apply)
  also have "increase_delay (w\<lparr>rate_limit_delay := spec_wait j\<rparr>) =
             w\<lparr>rate_limit_delay := spec_wait (Suc j)\<rparr>"
    by (simp add: increase_delay_eq next_delay_spec)
  also have "(increase_delay ^^ n) (w\<lparr>rate_limit_delay := spec_wait (Suc j)\<rparr>) =
             w\<lparr>rate_limit_delay := spec_wait (Suc j + n)\<rparr>"
    by (rule Suc.IH)
  finally show ?case by simp
qed

text \<open>
  C3. On a watcher as constructed, let the wrapped call be throttled on each of its first
  \<open>n\<close> attempts. The seconds slept before the attempts are then 0, 1, 2, 4, 4, 4, ...:
  nothing before the first attempt, then doubling up to 4. When the next attempt returns,
  the call returns its value and the delay is 0 again. When the next attempt raises another
  error, the error is raised to the caller after the same waits, and the delay stays where
  the throttling left it.
\<close>

theorem backoff_waits:
  assumes "\<forall>out \<in> set outs. throttled out"
  shows "wrap_aws_rate_limited_call (Watcher_init accs dbg) (outs @ [Returns v]) =
           Some (map spec_wait [0..<Suc (length outs)], Inr v, Watcher_init accs dbg) \<and>
         rate_limit_delay (Watcher_init accs dbg) = 0 \<and>
         (\<not> is_throttling e \<longrightarrow>
            wrap_aws_rate_limited_call (Watcher_init accs dbg) (outs @ [Raises e :: 'a outcome]) =
              Some (map spec_wait [0..<Suc (length outs)], Inl e,
                    (Watcher_init accs dbg)\<lparr>rate_limit_delay := spec_wait (length outs)\<rparr>))"
proof -
  have d0: "rate_limit_delay (Watcher_init accs dbg) = 0" by (simp add: Watcher_init_def)
  have same: "(Watcher_init accs dbg)\<lparr>rate_limit_delay := 0\<rparr> = Watcher_init accs dbg"
    by (simp add: Watcher_init_def)
  have ok: "wrap_aws_rate_limited_call (Watcher_init accs dbg) (outs @ [Returns v]) =
          Some (map spec_wait [0..<Suc (length outs)], Inr v, Watcher_init accs dbg)"
    using wrap_throttled_then_returns [OF assms, of "Watcher_init accs dbg" v] d0 same
    by (simp add: waits_from_fresh del: waits_from.simps upt_Suc)
  have start: "Watcher_init accs dbg = (Watcher_init accs dbg)\<lparr>rate_limit_delay := spec_wait 0\<rparr>"
    by (simp add: Watcher_init_def spec_wait_def)
  have final: "(increase_delay ^^ length outs) (Watcher_init accs dbg) =
               (Watcher_init accs dbg)\<lparr>rate_limit_delay := spec_wait (length outs)\<rparr>"
    using increase_delay_funpow [where n = "length outs" and w = "Watcher_init accs dbg" and j = 0] start by simp
  have bad: "wrap_aws_rate_limited_call (Watcher_init accs dbg) (outs @ [Raises e :: 'a outcome]) =
              Some (map spec_wait [0..<Suc (length outs)], Inl e,
                    (Watcher_init accs dbg)\<lparr>rate_limit_delay := spec_wait (length outs)\<rparr>)"
    if "\<not> is_throttling e"
    using wrap_throttled_then_raises [OF assms _ that, of "Watcher_init accs dbg"] d0 final
    by (simp add: waits_from_fresh del: waits_from.simps upt_Suc)
  show ?thesis using ok d0 bad by blast
qed

text \<open>
  C3 at five throttled attempts, answered by the two exception classes in turn, followed
  by a value, and followed by another error.
\<close>

theorem backoff_waits_witness:
  "list_all throttled
     [Raises (BotoServerError ''Throttling''), Raises (ClientError ''Throttling''),
      Raises (ClientError ''Throttling''), Raises (BotoServerError ''Throttling''),
      Raises (ClientError ''Throttling'') :: nat outcome] \<and>
   wrap_aws_rate_limited_call (Watcher_init [''a1''] False)
     ([Raises (BotoServerError ''Throttling''), Raises (ClientError ''Throttling''),
       Raises (ClientError ''Throttling''), Raises (BotoServerError ''Throttling''),
       Raises (ClientError ''Throttling'')] @ [Returns (7::nat)]) =
     Some ([0, 1, 2, 4, 4, 4], Inr 7, Watcher_init [''a1''] False) \<and>
   wrap_aws_rate_limited_call (Watcher_init [''a1''] False)
     ([Raises (BotoServerError ''Throttling''), Raises (ClientError ''Throttling''),
       Raises (ClientError ''Throttling''), Raises (BotoServerError ''Throttling''),
       Raises (ClientError ''Throttling'')] @ [Raises (ClientError ''AccessDenied'') :: nat outcome]) =
     Some ([0, 1, 2, 4, 4, 4], Inl (ClientError ''AccessDenied''),
           (Watcher_init [''a1''] False)\<lparr>rate_limit_delay := 4\<rparr>)"
proof -
  let ?outs = "[Raises (BotoServerError ''Throttling''), Raises (ClientError ''Throttling''),
       Raises (ClientError ''Throttling''), Raises (BotoServerError ''Throttling''),
       Raises (ClientError ''Throttling'')] :: nat outcome list"
  have h: "\<forall>out \<in> set ?outs. throttled out" by simp
  have w: "map spec_wait [0..<Suc (length ?outs)] = [0, 1, 2, 4, 4, 4]"
    by (simp add: spec_wait_def upt_rec)
  have l: "spec_wait (length ?outs) = 4" by (simp add: spec_wait_def)
  have n: "\<not> is_throttling (ClientError ''AccessDenied'')" by simp
  show ?thesis
    using h backoff_waits [OF h, of "[''a1'']" False 7 "ClientError ''AccessDenied''"] w l n
    by (simp del: wrap_aws_rate_limited_call.simps upt_Suc)
qed


section \<open>The issue flags\<close>

lemma scan_existing_eq: "scan_existing is u \<longleftrightarrow> u \<or> (\<exists>i \<in> set is. \<not> justified i)"
  by (induction "is") auto

lemma issues_found_loop_eq:
  "issues_found_loop rs (hi, hn, hu) =
     (hi \<or> (\<exists>r \<in> set rs. audit_issues r \<noteq> []),
      hn \<or> (\<exists>r \<in> set rs. audit_issues r \<noteq> [] \<and> found_new_issue r),
      hu \<or> (\<exists>r \<in> set rs. audit_issues r \<noteq> [] \<and>
               (found_new_issue r \<or> (\<exists>i \<in> set (confirmed_existing_issues r). \<not> justified i))))"
proof (induction rs "(hi, hn, hu)" arbitrary: hi hn hu rule: issues_found_loop.induct)
  case 1
  show ?case by simp
next
  case (2 item rest hi hn hu)
  show ?case
  proof (cases "audit_issues item \<noteq> []")
    case False
    then show ?thesis using 2(2) by simp
  next
    case True
    show ?thesis
    proof (cases "found_new_issue item")
      case True
      with \<open>audit_issues item \<noteq> []\<close> show ?thesis by auto
    next
      case False
      with \<open>audit_issues item \<noteq> []\<close> show ?thesis
        using 2(1) by (auto simp: scan_existing_eq)
    qed
  qed
qed

lemma full_all_true: "issues_found_full rs (True, True, True) = (True, True, True)"
proof (induction rs)
  case Nil show ?case by simp
next
  case (Cons r rs)
  have "scan_existing is True = True" for "is" by (induction "is") simp_all
  then show ?case using Cons by simp
qed

text \<open>
  C7 as stated fails: a record whose \<^verbatim>\<open>found_new_issue\<close> is set but whose
  \<^verbatim>\<open>audit_issues\<close> is empty sets none of the flags, because the tests of
  \<^verbatim>\<open>found_new_issue\<close> and of \<^verbatim>\<open>confirmed_existing_issues\<close> are inside
  \<^verbatim>\<open>if item.audit_issues\<close>.
\<close>

theorem issues_found_ignores_unaudited:
  "audit_issues unaudited_new_issue = [] \<and> found_new_issue unaudited_new_issue \<and>
   issues_found ((fresh_watcher False [])\<lparr>created_items := [unaudited_new_issue]\<rparr>) =
     (False, False, False)"
  by (simp add: issues_found_def unaudited_new_issue_def sg_other_created_def ChangeItem_init_def
        fresh_watcher_def Watcher_init_def)

text \<open>
  C7, amended. Over the records of \<^verbatim>\<open>created_items + changed_items\<close>, in order:
  \<^verbatim>\<open>has_issues\<close> holds exactly when some record has audit issues; \<^verbatim>\<open>has_new_issue\<close> holds
  exactly when some record with audit issues has \<^verbatim>\<open>found_new_issue\<close> set;
  \<^verbatim>\<open>has_unjustified_issue\<close> holds exactly when some record with audit issues has
  \<^verbatim>\<open>found_new_issue\<close> set or has an entry of \<^verbatim>\<open>confirmed_existing_issues\<close> that is
  not justified. A record with audit issues and \<^verbatim>\<open>found_new_issue\<close> ends the scan: all
  three flags are set, whatever the scan has found before and whatever records follow.
  Records without audit issues set nothing.
\<close>

theorem issues_found_flags:
  "issues_found w =
     (\<exists>r \<in> set (created_items w @ changed_items w). audit_issues r \<noteq> [],
      \<exists>r \<in> set (created_items w @ changed_items w). audit_issues r \<noteq> [] \<and> found_new_issue r,
      \<exists>r \<in> set (created_items w @ changed_items w). audit_issues r \<noteq> [] \<and>
         (found_new_issue r \<or> (\<exists>i \<in> set (confirmed_existing_issues r). \<not> justified i))) \<and>
   (audit_issues r \<noteq> [] \<and> found_new_issue r \<longrightarrow>
      issues_found_loop (r # rest) flags = (True, True, True))"
proof -
  have "audit_issues r \<noteq> [] \<and> found_new_issue r \<longrightarrow>
        issues_found_loop (r # rest) flags = (True, True, True)"
    by (cases flags) simp
  then show ?thesis
    unfolding issues_found_def issues_found_loop_eq by simp
qed

text \<open>
  C7, amended, at a watcher with a clean created record and a changed record that has an
  unjustified known issue, and at a scan that starts with a new issue.
\<close>

theorem issues_found_flags_witness:
  "issues_found ((fresh_watcher False [])\<lparr>created_items := [sg_other_created],
                                          changed_items := [audited_existing]\<rparr>) = (True, False, True) \<and>
   audit_issues audited_new_issue \<noteq> [] \<and> found_new_issue audited_new_issue \<and>
   issues_found_loop (audited_new_issue # [audited_existing]) (False, False, False) = (True, True, True)"
  using issues_found_flags [of "(fresh_watcher False [])\<lparr>created_items := [sg_other_created],
                                          changed_items := [audited_existing]\<rparr>"
          audited_new_issue "[audited_existing]" "(False, False, False)"]
  by (simp add: fresh_watcher_def Watcher_init_def audited_existing_def audited_new_issue_def
        sg_other_created_def sg_change_full_def ChangeItem_init_def open_port_def)

text \<open>
  C8. The flags of the loop of \<^verbatim>\<open>issues_found\<close>, which leaves at the first new issue,
  are the flags of the scan of the whole list, from any starting flags.
\<close>

theorem issues_found_short_circuit_equiv:
  "issues_found_loop rs flags = issues_found_full rs flags"
proof (induction rs flags rule: issues_found_loop.induct)
  case (1 flags)
  show ?case by simp
next
  case (2 item rest hi hn hu)
  have scan_true: "scan_existing is True = True" for "is" by (induction "is") simp_all
  show ?case using 2 by (simp add: full_all_true scan_true)
qed

text \<open>
  C8 at a list whose second record has a new issue: both scans set the three flags.
\<close>

theorem short_circuit_witness:
  "issues_found_loop [audited_existing, audited_new_issue, sg_other_created] (False, False, False) =
     (True, True, True) \<and>
   issues_found_full [audited_existing, audited_new_issue, sg_other_created] (False, False, False) =
     (True, True, True)"
  using issues_found_short_circuit_equiv
          [of "[audited_existing, audited_new_issue, sg_other_created]" "(False, False, False)"]
  by (simp add: audited_existing_def audited_new_issue_def
        sg_other_created_def sg_change_full_def ChangeItem_init_def open_port_def)


section \<open>Dicts, keys and enumerations\<close>

lemma enumerates_set: "enumerates order \<Longrightarrow> set (order ls) = set ls"
  unfolding enumerates_def by (metis set_mset_mset)

lemma enumerates_mset: "enumerates order \<Longrightarrow> mset (order ls) = mset ls"
  unfolding enumerates_def by simp

lemma enumerates_Nil: "enumerates order \<Longrightarrow> order [] = []"
  unfolding enumerates_def by (metis mset_zero_iff)

lemma fold_upd_map_of:
  "fold (\<lambda>item m. m(location item \<mapsto> item)) items m =
     m ++ map_of (rev (map (\<lambda>i. (location i, i)) items))"
proof (induction items arbitrary: m)
  case Nil
  show ?case by simp
next
  case (Cons x xs)
  have "fold (\<lambda>item m. m(location item \<mapsto> item)) (x # xs) m =
        fold (\<lambda>item m. m(location item \<mapsto> item)) xs (m(location x \<mapsto> x))"
    by (simp only: fold.simps o_apply)
  also have "\<dots> = m(location x \<mapsto> x) ++ map_of (rev (map (\<lambda>i. (location i, i)) xs))"
    by (rule Cons.IH)
  also have "m(location x \<mapsto> x) = m ++ [location x \<mapsto> x]"
    by simp
  also have "(m ++ [location x \<mapsto> x]) ++ map_of (rev (map (\<lambda>i. (location i, i)) xs)) =
             m ++ map_of (rev (map (\<lambda>i. (location i, i)) (x # xs)))"
    by (simp only: map_add_assoc list.map rev.simps map_of_append map_of.simps map_add_empty
                   fst_conv snd_conv)
  finally show ?case .
qed

lemma dict_of_map_of: "dict_of items = map_of (rev (map (\<lambda>i. (location i, i)) items))"
  by (simp add: dict_of_def fold_upd_map_of)

lemma dom_dict_of: "dom (dict_of items) = set (map location items)"
  by (simp add: dict_of_map_of dom_map_of_conv_image_fst image_image)

lemma dict_of_Some: "dict_of items l = Some i \<Longrightarrow> i \<in> set items \<and> location i = l"
  by (auto simp: dict_of_map_of dest!: map_of_SomeD)

lemma dict_of_snapshot: "snapshot items \<Longrightarrow> i \<in> set items \<Longrightarrow> dict_of items (location i) = Some i"
  unfolding dict_of_map_of snapshot_def
  by (rule map_of_is_SomeI) (auto simp: rev_map [symmetric] o_def)

lemma set_keys_of: "set (keys_of items) = set (map location items)"
  by (simp add: keys_of_def)

lemma lookup_all_total:
  "set ls \<subseteq> dom d \<Longrightarrow> lookup_all d ls = Inr (map (\<lambda>l. the (d l)) ls)"
  by (induction ls) auto

lemma find_modified_loop_total:
  "set ls \<subseteq> dom prev_map \<Longrightarrow> set ls \<subseteq> dom curr_map \<Longrightarrow>
   find_modified_loop sub_dict delete prev_map curr_map ls w =
     Inr (fold (\<lambda>l. modified_step sub_dict delete (the (prev_map l)) (the (curr_map l))) ls w)"
  by (induction ls arbitrary: w) auto

lemma location_dict_of: "l \<in> set (map location items) \<Longrightarrow> location (the (dict_of items l)) = l"
proof -
  assume "l \<in> set (map location items)"
  then have "l \<in> dom (dict_of items)" by (simp only: dom_dict_of)
  then obtain i where "dict_of items l = Some i" by auto
  then show ?thesis using dict_of_Some by fastforce
qed


section \<open>What the passes compute\<close>

text \<open>
  No lookup of the passes fails: every location they visit is a key of the dict they
  index. So each pass is a fold over the locations it visits.
\<close>

lemma set_deleted_locations:
  "enumerates order \<Longrightarrow> set (deleted_locations order previous current m) =
     {l \<in> set (map location previous). l \<notin> set (map location current) \<and> \<not> locationInExceptionMap l m}"
  by (auto simp: deleted_locations_def enumerates_set set_keys_of)

lemma set_new_locations:
  "enumerates order \<Longrightarrow> set (new_locations order previous current) =
     {l \<in> set (map location current). l \<notin> set (map location previous)}"
  by (auto simp: new_locations_def enumerates_set set_keys_of)

lemma set_modified_locations:
  "enumerates order \<Longrightarrow> set (modified_locations order previous current m) =
     {l \<in> set (map location current). l \<in> set (map location previous) \<and> \<not> locationInExceptionMap l m}"
  by (auto simp: modified_locations_def enumerates_set set_keys_of)

lemma append_deleted_eq:
  "append_deleted item w = w\<lparr>deleted_items := deleted_items w @ [the (from_items (Some item) None)]\<rparr>"
  by (simp add: append_deleted_def from_items_old)

lemma append_created_eq:
  "append_created item w = w\<lparr>created_items := created_items w @ [the (from_items None (Some item))]\<rparr>"
  by (simp add: append_created_def from_items_new)

lemma fold_append_deleted:
  "fold append_deleted items w =
     w\<lparr>deleted_items := deleted_items w @ map (\<lambda>i. the (from_items (Some i) None)) items\<rparr>"
  by (induction items arbitrary: w) (simp_all add: append_deleted_eq)

lemma fold_append_created:
  "fold append_created items w =
     w\<lparr>created_items := created_items w @ map (\<lambda>i. the (from_items None (Some i))) items\<rparr>"
  by (induction items arbitrary: w) (simp_all add: append_created_eq)

lemma find_deleted_eq:
  assumes "enumerates order"
  shows "find_deleted order w previous current m =
     Inr (fold append_deleted (map (\<lambda>l. the (dict_of previous l)) (deleted_locations order previous current m)) w)"
proof -
  have "set (deleted_locations order previous current m) \<subseteq> dom (dict_of previous)"
    using set_deleted_locations [OF assms] by (auto simp: dom_dict_of)
  then show ?thesis
    by (simp add: find_deleted_def Let_def lookup_all_total deleted_locations_def)
qed

lemma find_new_eq:
  assumes "enumerates order"
  shows "find_new order w previous current =
     Inr (fold append_created (map (\<lambda>l. the (dict_of current l)) (new_locations order previous current)) w)"
proof -
  have "set (new_locations order previous current) \<subseteq> dom (dict_of current)"
    using set_new_locations [OF assms] by (auto simp: dom_dict_of)
  then show ?thesis
    by (simp add: find_new_def Let_def lookup_all_total new_locations_def)
qed

lemma find_modified_eq:
  assumes "enumerates order"
  shows "find_modified order sub_dict delete w previous current m =
     Inr (fold (\<lambda>l. modified_step sub_dict delete (the (dict_of previous l)) (the (dict_of current l)))
            (modified_locations order previous current m) w)"
proof -
  have "set (modified_locations order previous current m) \<subseteq> dom (dict_of current)"
       "set (modified_locations order previous current m) \<subseteq> dom (dict_of previous)"
    using set_modified_locations [OF assms] by (auto simp: dom_dict_of)
  then show ?thesis
    by (simp add: find_modified_def Let_def find_modified_loop_total modified_locations_def)
qed

lemma find_changes_eq:
  assumes "enumerates order"
  shows "find_changes order sub_dict delete w previous current m =
     Inr (fold (\<lambda>l. modified_step sub_dict delete (the (dict_of previous l)) (the (dict_of current l)))
            (modified_locations order previous current m)
          (fold append_created (map (\<lambda>l. the (dict_of current l)) (new_locations order previous current))
          (fold append_deleted (map (\<lambda>l. the (dict_of previous l)) (deleted_locations order previous current m)) w)))"
  by (simp add: find_changes_def find_deleted_eq [OF assms] find_new_eq [OF assms] find_modified_eq [OF assms])

lemma modified_step_frame:
  "created_items (modified_step sd del p c w) = created_items w"
  "deleted_items (modified_step sd del p c w) = deleted_items w"
  "honor_ephemerals (modified_step sd del p c w) = honor_ephemerals w"
  "ephemeral_paths (modified_step sd del p c w) = ephemeral_paths w"
  by (simp_all add: modified_step_def Let_def split: option.splits prod.splits)

lemma fold_modified_step_frame:
  "created_items (fold (\<lambda>l. modified_step sd del (f l) (g l)) ls w) = created_items w"
  "deleted_items (fold (\<lambda>l. modified_step sd del (f l) (g l)) ls w) = deleted_items w"
  "honor_ephemerals (fold (\<lambda>l. modified_step sd del (f l) (g l)) ls w) = honor_ephemerals w"
  "ephemeral_paths (fold (\<lambda>l. modified_step sd del (f l) (g l)) ls w) = ephemeral_paths w"
  by (induction ls arbitrary: w) (simp_all add: modified_step_frame)

lemma find_changes_deleted_items:
  assumes "enumerates order"
    and "find_changes order sub_dict delete w previous current m = Inr w'"
  shows "deleted_items w' = deleted_items w @
           map (\<lambda>l. the (from_items (Some (the (dict_of previous l))) None))
               (deleted_locations order previous current m)"
  using assms(2) unfolding find_changes_eq [OF assms(1)]
  by (auto simp: fold_modified_step_frame fold_append_created fold_append_deleted o_def)

lemma find_changes_created_items:
  assumes "enumerates order"
    and "find_changes order sub_dict delete w previous current m = Inr w'"
  shows "created_items w' = created_items w @
           map (\<lambda>l. the (from_items None (Some (the (dict_of current l)))))
               (new_locations order previous current)"
  using assms(2) unfolding find_changes_eq [OF assms(1)]
  by (auto simp: fold_modified_step_frame fold_append_created fold_append_deleted o_def)

lemma find_changes_total:
  "enumerates order \<Longrightarrow> \<exists>w'. find_changes order sub_dict delete w previous current m = Inr w'"
  by (simp add: find_changes_eq)

lemma locations_of_deleted:
  assumes "enumerates order"
    and "find_changes order sub_dict delete w previous current m = Inr w'"
  shows "map location (deleted_items w') =
           map location (deleted_items w) @ deleted_locations order previous current m"
proof -
  have "map (\<lambda>l. location (the (from_items (Some (the (dict_of previous l))) None)))
            (deleted_locations order previous current m) =
        map (\<lambda>l. l) (deleted_locations order previous current m)"
    by (rule map_cong [OF refl])
       (use set_deleted_locations [OF assms(1)] in
          \<open>auto simp: location_from_items_old location_dict_of\<close>)
  then show ?thesis
    by (simp add: find_changes_deleted_items [OF assms] o_def)
qed

lemma locations_of_created:
  assumes "enumerates order"
    and "find_changes order sub_dict delete w previous current m = Inr w'"
  shows "map location (created_items w') =
           map location (created_items w) @ new_locations order previous current"
proof -
  have "map (\<lambda>l. location (the (from_items None (Some (the (dict_of current l))))))
            (new_locations order previous current) =
        map (\<lambda>l. l) (new_locations order previous current)"
    by (rule map_cong [OF refl])
       (use set_new_locations [OF assms(1)] in
          \<open>auto simp: location_from_items_new location_dict_of\<close>)
  then show ?thesis
    by (simp add: find_changes_created_items [OF assms] o_def)
qed

lemma find_changes_changed_items_none:
  assumes "enumerates order"
    and "find_changes order sub_dict delete w previous current m = Inr w'"
    and "modified_locations order previous current m = []"
  shows "changed_items w' = changed_items w" "ephemeral_items w' = ephemeral_items w"
  using assms(2) unfolding find_changes_eq [OF assms(1)] assms(3)
  by (auto simp: fold_append_created fold_append_deleted)


section \<open>Runs on the concrete inputs\<close>

lemmas run_defs = find_changes_def find_deleted_def find_new_def find_modified_def keys_of_def
  dict_of_def location_def ChangeItem_init_def example_order_def locationInExceptionMap_def
  modified_step_def fresh_watcher_def Watcher_init_def ephemerals_skipped_def config_def
  example_sub_dict_def filter_ephemeral_def delete_path_def from_items_def append_deleted_def
  append_created_def sg_old_def sg_new_def sg_touched_def sg_other_def example_exceptions_def
  sg_change_full_def sg_change_durable_def sg_change_touched_def sg_other_created_def

lemma enumerates_example: "enumerates example_order"
  by (simp add: enumerates_def example_order_def)

lemma no_items_fresh: "no_items (fresh_watcher honor paths)"
  by (simp add: no_items_def fresh_watcher_def Watcher_init_def)

lemma run_touched_honor:
  "find_changes example_order example_sub_dict example_delete (fresh_watcher True [''etag''])
     [sg_old] [sg_touched] Map.empty =
   Inr ((fresh_watcher True [''etag''])\<lparr>ephemeral_items := [sg_change_touched]\<rparr>)"
  by (simp add: run_defs)

lemma run_changed_honor:
  "find_changes example_order example_sub_dict example_delete (fresh_watcher True [''etag''])
     [sg_old] [sg_new] Map.empty =
   Inr ((fresh_watcher True [''etag''])
          \<lparr>changed_items := [sg_change_durable], ephemeral_items := [sg_change_full]\<rparr>)"
  by (simp add: run_defs)


section \<open>Disjoint snapshots\<close>

text \<open>
  C1. Let \<open>previous\<close> and \<open>current\<close> be snapshots that share no location, the exception
  map be empty, and the buckets be empty at the start. After \<^verbatim>\<open>find_changes\<close>, that is
  \<^verbatim>\<open>find_deleted\<close>, \<^verbatim>\<open>find_new\<close> and \<^verbatim>\<open>find_modified\<close>, the created bucket holds
  exactly one record per item of \<open>current\<close>, the record \<^verbatim>\<open>from_items\<close> builds for it; the
  deleted bucket holds exactly one record per item of \<open>previous\<close>; the changed bucket is
  empty. The buckets are compared as multisets, since the order of enumeration is free.
\<close>

theorem disjoint_snapshots:
  assumes "enumerates order" and "snapshot previous" and "snapshot current"
    and "set (map location previous) \<inter> set (map location current) = {}"
    and "no_items w"
  shows "\<exists>w'. find_changes order sub_dict delete w previous current Map.empty = Inr w' \<and>
           mset (map Some (created_items w')) = mset (map (\<lambda>item. from_items None (Some item)) current) \<and>
           mset (map Some (deleted_items w')) = mset (map (\<lambda>item. from_items (Some item) None) previous) \<and>
           changed_items w' = []"
proof -
  obtain w' where run: "find_changes order sub_dict delete w previous current Map.empty = Inr w'"
    using find_changes_total [OF assms(1)] by blast
  have noexc: "\<not> locationInExceptionMap l Map.empty" for l
    by (simp add: locationInExceptionMap_def)
  have kp: "keys_of previous = map location previous"
    using assms(2) by (simp add: keys_of_def snapshot_def)
  have kc: "keys_of current = map location current"
    using assms(3) by (simp add: keys_of_def snapshot_def)
  have newl: "new_locations order previous current = order (map location current)"
  proof -
    have "[l \<leftarrow> map location current. l \<notin> set (map location previous)] = map location current"
      using assms(4) by (intro filter_True) auto
    then show ?thesis by (simp only: new_locations_def kp kc)
  qed
  have dell: "deleted_locations order previous current Map.empty = order (map location previous)"
  proof -
    have "[l \<leftarrow> map location previous. l \<notin> set (map location current)] = map location previous"
      using assms(4) by (intro filter_True) auto
    then show ?thesis by (simp add: deleted_locations_def kp kc noexc)
  qed
  have modl: "modified_locations order previous current Map.empty = []"
  proof -
    have "[l \<leftarrow> map location current. l \<in> set (map location previous)] = []"
      using assms(4) by (auto simp: filter_empty_conv)
    then show ?thesis
      by (simp add: modified_locations_def kp kc enumerates_Nil [OF assms(1)])
  qed
  have created: "mset (map Some (created_items w')) =
                 mset (map (\<lambda>item. from_items None (Some item)) current)"
  proof -
    let ?G = "\<lambda>l. from_items None (Some (the (dict_of current l)))"
    have "map Some (created_items w') = map ?G (order (map location current))"
      using find_changes_created_items [OF assms(1) run] assms(5)
      by (simp add: no_items_def newl o_def Some_the_from_items_new)
    then have "mset (map Some (created_items w')) = image_mset ?G (mset (order (map location current)))"
      by simp
    also have "\<dots> = image_mset ?G (mset (map location current))"
      by (simp only: enumerates_mset [OF assms(1)])
    also have "\<dots> = mset (map (\<lambda>item. ?G (location item)) current)"
      by (simp add: multiset.map_comp o_def)
    also have "map (\<lambda>item. ?G (location item)) current = map (\<lambda>item. from_items None (Some item)) current"
      by (rule map_cong [OF refl]) (simp add: dict_of_snapshot [OF assms(3)])
    finally show ?thesis .
  qed
  have deleted: "mset (map Some (deleted_items w')) =
                 mset (map (\<lambda>item. from_items (Some item) None) previous)"
  proof -
    let ?G = "\<lambda>l. from_items (Some (the (dict_of previous l))) None"
    have "map Some (deleted_items w') = map ?G (order (map location previous))"
      using find_changes_deleted_items [OF assms(1) run] assms(5)
      by (simp add: no_items_def dell o_def Some_the_from_items_old)
    then have "mset (map Some (deleted_items w')) = image_mset ?G (mset (order (map location previous)))"
      by simp
    also have "\<dots> = image_mset ?G (mset (map location previous))"
      by (simp only: enumerates_mset [OF assms(1)])
    also have "\<dots> = mset (map (\<lambda>item. ?G (location item)) previous)"
      by (simp add: multiset.map_comp o_def)
    also have "map (\<lambda>item. ?G (location item)) previous = map (\<lambda>item. from_items (Some item) None) previous"
      by (rule map_cong [OF refl]) (simp add: dict_of_snapshot [OF assms(2)])
    finally show ?thesis .
  qed
  have changed: "changed_items w' = []"
    using find_changes_changed_items_none(1) [OF assms(1) run modl] assms(5)
    by (simp add: no_items_def)
  show ?thesis using run created deleted changed by blast
qed

text \<open>
  C1 at a recorded group that is gone and another group that is new.
\<close>

theorem disjoint_snapshots_witness:
  "enumerates example_order \<and> snapshot [sg_old] \<and> snapshot [sg_other] \<and>
   set (map location [sg_old]) \<inter> set (map location [sg_other]) = {} \<and>
   no_items (fresh_watcher False []) \<and>
   (\<exists>w'. find_changes example_order example_sub_dict example_delete (fresh_watcher False [])
            [sg_old] [sg_other] Map.empty = Inr w' \<and>
         mset (map Some (created_items w')) = {#Some sg_other_created#} \<and>
         mset (map Some (deleted_items w')) = {#from_items (Some sg_old) None#} \<and>
         changed_items w' = [])"
proof -
  have s1: "snapshot [sg_old]" by (simp add: snapshot_def)
  have s2: "snapshot [sg_other]" by (simp add: snapshot_def)
  have dj: "set (map location [sg_old]) \<inter> set (map location [sg_other]) = {}"
    by (simp add: location_def sg_old_def sg_other_def ChangeItem_init_def)
  have r: "from_items None (Some sg_other) = Some sg_other_created" by (simp add: run_defs)
  show ?thesis
    using disjoint_snapshots [OF enumerates_example s1 s2 dj no_items_fresh,
            of example_sub_dict example_delete False "[]"]
          enumerates_example s1 s2 dj no_items_fresh [of False "[]"] r
    by simp
qed


section \<open>Suppression by the exception map\<close>

text \<open>
  C4. Start from empty buckets. A location that is in \<open>previous\<close> and not in \<open>current\<close>
  is not in the deleted bucket when the exception map has an entry at the location itself
  or at its prefix of three, two or one components. A location that is in \<open>current\<close> and
  not in \<open>previous\<close> is in the created bucket, whatever the exception map holds.
\<close>

theorem suppressed_not_deleted_new_always_created:
  assumes "enumerates order" and "no_items w"
  shows "\<exists>w'. find_changes order sub_dict delete w previous current m = Inr w' \<and>
           (l \<in> set (map location previous) \<and> l \<notin> set (map location current) \<and>
            (m l \<noteq> None \<or> m (take 3 l) \<noteq> None \<or> m (take 2 l) \<noteq> None \<or> m (take 1 l) \<noteq> None)
              \<longrightarrow> l \<notin> set (map location (deleted_items w'))) \<and>
           (l' \<in> set (map location current) \<and> l' \<notin> set (map location previous)
              \<longrightarrow> l' \<in> set (map location (created_items w')))"
proof -
  obtain w' where run: "find_changes order sub_dict delete w previous current m = Inr w'"
    using find_changes_total [OF assms(1)] by blast
  have del: "set (map location (deleted_items w')) = set (deleted_locations order previous current m)"
    using locations_of_deleted [OF assms(1) run] assms(2) by (simp add: no_items_def)
  have new: "set (map location (created_items w')) = set (new_locations order previous current)"
    using locations_of_created [OF assms(1) run] assms(2) by (simp add: no_items_def)
  have "m l \<noteq> None \<or> m (take 3 l) \<noteq> None \<or> m (take 2 l) \<noteq> None \<or> m (take 1 l) \<noteq> None
          \<Longrightarrow> locationInExceptionMap l m"
    by (auto simp: locationInExceptionMap_def)
  then have one: "l \<in> set (map location previous) \<and> l \<notin> set (map location current) \<and>
            (m l \<noteq> None \<or> m (take 3 l) \<noteq> None \<or> m (take 2 l) \<noteq> None \<or> m (take 1 l) \<noteq> None)
              \<longrightarrow> l \<notin> set (map location (deleted_items w'))"
    unfolding del set_deleted_locations [OF assms(1)] by blast
  have two: "l' \<in> set (map location current) \<and> l' \<notin> set (map location previous)
              \<longrightarrow> l' \<in> set (map location (created_items w'))"
    unfolding new set_new_locations [OF assms(1)] by blast
  show ?thesis using run one two by blast
qed

text \<open>
  C4 at an account-wide exception: the recorded group that is gone is not reported as
  deleted, the new group is reported as created.
\<close>

theorem suppressed_not_deleted_witness:
  "enumerates example_order \<and> no_items (fresh_watcher False []) \<and>
   [''sg'', ''a1'', ''us-east-1'', ''sg-1''] \<in> set (map location [sg_old]) \<and>
   [''sg'', ''a1'', ''us-east-1'', ''sg-1''] \<notin> set (map location [sg_other]) \<and>
   example_exceptions (take 2 [''sg'', ''a1'', ''us-east-1'', ''sg-1'']) \<noteq> None \<and>
   [''sg'', ''a1'', ''us-east-1'', ''sg-2''] \<in> set (map location [sg_other]) \<and>
   [''sg'', ''a1'', ''us-east-1'', ''sg-2''] \<notin> set (map location [sg_old]) \<and>
   (\<exists>w'. find_changes example_order example_sub_dict example_delete (fresh_watcher False [])
            [sg_old] [sg_other] example_exceptions = Inr w' \<and>
         [''sg'', ''a1'', ''us-east-1'', ''sg-1''] \<notin> set (map location (deleted_items w')) \<and>
         [''sg'', ''a1'', ''us-east-1'', ''sg-2''] \<in> set (map location (created_items w')))"
proof -
  let ?l = "[''sg'', ''a1'', ''us-east-1'', ''sg-1'']" and ?l' = "[''sg'', ''a1'', ''us-east-1'', ''sg-2'']"
  have a: "?l \<in> set (map location [sg_old])" "?l \<notin> set (map location [sg_other])"
          "?l' \<in> set (map location [sg_other])" "?l' \<notin> set (map location [sg_old])"
    by (simp_all add: location_def sg_old_def sg_other_def ChangeItem_init_def)
  have b: "example_exceptions (take 2 ?l) \<noteq> None"
    by (simp add: example_exceptions_def)
  obtain w' where run: "find_changes example_order example_sub_dict example_delete
        (fresh_watcher False []) [sg_old] [sg_other] example_exceptions = Inr w'"
    and del: "?l \<in> set (map location [sg_old]) \<and> ?l \<notin> set (map location [sg_other]) \<and>
          (example_exceptions ?l \<noteq> None \<or> example_exceptions (take 3 ?l) \<noteq> None \<or>
           example_exceptions (take 2 ?l) \<noteq> None \<or> example_exceptions (take 1 ?l) \<noteq> None)
          \<longrightarrow> ?l \<notin> set (map location (deleted_items w'))"
    and new: "?l' \<in> set (map location [sg_other]) \<and> ?l' \<notin> set (map location [sg_old])
          \<longrightarrow> ?l' \<in> set (map location (created_items w'))"
    using suppressed_not_deleted_new_always_created [OF enumerates_example no_items_fresh,
            of example_sub_dict example_delete False "[]" "[sg_old]" "[sg_other]"
               example_exceptions ?l ?l']
    by blast
  have "?l \<notin> set (map location (deleted_items w'))" using del a(1,2) b by blast
  moreover have "?l' \<in> set (map location (created_items w'))" using new a(3,4) by blast
  ultimately show ?thesis
    using run enumerates_example no_items_fresh [of False "[]"] a b by blast
qed


section \<open>Running the diff twice\<close>

lemma append_deleted_prepend: "append_deleted i (prepend_items a w) = prepend_items a (append_deleted i w)"
  by (simp add: append_deleted_eq prepend_items_def)

lemma append_created_prepend: "append_created i (prepend_items a w) = prepend_items a (append_created i w)"
  by (simp add: append_created_eq prepend_items_def)

lemma modified_step_prepend:
  "modified_step sd del p c (prepend_items a w) = prepend_items a (modified_step sd del p c w)"
  by (simp add: modified_step_def prepend_items_def Let_def ephemerals_skipped_def
           split: option.splits prod.splits)

lemma fold_prepend:
  "(\<And>x w. f x (prepend_items a w) = prepend_items a (f x w)) \<Longrightarrow>
   fold f xs (prepend_items a w) = prepend_items a (fold f xs w)"
  by (induction xs arbitrary: w) simp_all

lemma append_deleted_clear: "clear_items (append_deleted i w) = clear_items w"
  by (simp add: append_deleted_eq clear_items_def)

lemma append_created_clear: "clear_items (append_created i w) = clear_items w"
  by (simp add: append_created_eq clear_items_def)

lemma modified_step_clear: "clear_items (modified_step sd del p c w) = clear_items w"
  by (simp add: modified_step_def clear_items_def Let_def split: option.splits prod.splits)

lemma fold_clear:
  "(\<And>x w. clear_items (f x w) = clear_items w) \<Longrightarrow> clear_items (fold f xs w) = clear_items w"
  by (induction xs arbitrary: w) simp_all

lemma find_changes_prepend:
  assumes "enumerates order"
    and "find_changes order sd del w previous current m = Inr w'"
  shows "find_changes order sd del (prepend_items a w) previous current m = Inr (prepend_items a w')"
  using assms(2) unfolding find_changes_eq [OF assms(1)]
  by (auto simp: fold_prepend append_deleted_prepend append_created_prepend modified_step_prepend)

lemma find_changes_clear:
  assumes "enumerates order"
    and "find_changes order sd del w previous current m = Inr w'"
  shows "clear_items w' = clear_items w"
  using assms(2) unfolding find_changes_eq [OF assms(1)]
  by (auto simp: fold_clear append_deleted_clear append_created_clear modified_step_clear)

lemma no_items_clear: "no_items w \<Longrightarrow> clear_items w = w"
  by (simp add: no_items_def clear_items_def)

lemma prepend_clear: "prepend_items w (clear_items w) = w"
  by (simp add: prepend_items_def clear_items_def)

text \<open>
  C6 as stated fails: the passes append to the buckets, which only \<^verbatim>\<open>__init__\<close>
  empties. After one run on a new group the created bucket holds its record once, after a
  second run on the same watcher it holds it twice.
\<close>

theorem find_changes_twice_doubles:
  "find_changes example_order example_sub_dict example_delete (fresh_watcher False [])
     [] [sg_other] Map.empty =
   Inr ((fresh_watcher False [])\<lparr>created_items := [sg_other_created]\<rparr>) \<and>
   find_changes example_order example_sub_dict example_delete
     ((fresh_watcher False [])\<lparr>created_items := [sg_other_created]\<rparr>) [] [sg_other] Map.empty =
   Inr ((fresh_watcher False [])\<lparr>created_items := [sg_other_created, sg_other_created]\<rparr>) \<and>
   [sg_other_created, sg_other_created] \<noteq> [sg_other_created]"
  by (simp add: run_defs)

text \<open>
  C6, amended. Starting from empty buckets, a second run of \<^verbatim>\<open>find_changes\<close> on the same
  watcher and the same pair of snapshots appends the records of the first run once more:
  each of the four buckets is then the bucket after the first run followed by itself.
\<close>

theorem find_changes_twice:
  assumes "enumerates order" and "no_items w"
  shows "\<exists>w1 w2. find_changes order sub_dict delete w previous current m = Inr w1 \<and>
           find_changes order sub_dict delete w1 previous current m = Inr w2 \<and>
           created_items w2 = created_items w1 @ created_items w1 \<and>
           deleted_items w2 = deleted_items w1 @ deleted_items w1 \<and>
           changed_items w2 = changed_items w1 @ changed_items w1 \<and>
           ephemeral_items w2 = ephemeral_items w1 @ ephemeral_items w1"
proof -
  obtain w1 where run: "find_changes order sub_dict delete w previous current m = Inr w1"
    using find_changes_total [OF assms(1)] by blast
  have "clear_items w1 = w"
    using find_changes_clear [OF assms(1) run] no_items_clear [OF assms(2)] by simp
  then have w1: "prepend_items w1 w = w1"
    using prepend_clear [of w1] by simp
  have "find_changes order sub_dict delete (prepend_items w1 w) previous current m = Inr (prepend_items w1 w1)"
    by (rule find_changes_prepend [OF assms(1) run])
  then have again: "find_changes order sub_dict delete w1 previous current m = Inr (prepend_items w1 w1)"
    by (simp only: w1)
  show ?thesis
    using run again by (auto simp: prepend_items_def)
qed

text \<open>
  C6, amended, at a changed group and a new group, with ephemeral paths honoured.
\<close>

theorem find_changes_twice_witness:
  "enumerates example_order \<and> no_items (fresh_watcher True [''etag'']) \<and>
   (\<exists>w1 w2. find_changes example_order example_sub_dict example_delete
              (fresh_watcher True [''etag'']) [sg_old] [sg_new, sg_other] Map.empty = Inr w1 \<and>
        find_changes example_order example_sub_dict example_delete w1
              [sg_old] [sg_new, sg_other] Map.empty = Inr w2 \<and>
        created_items w2 = created_items w1 @ created_items w1 \<and>
        deleted_items w2 = deleted_items w1 @ deleted_items w1 \<and>
        changed_items w2 = changed_items w1 @ changed_items w1 \<and>
        ephemeral_items w2 = ephemeral_items w1 @ ephemeral_items w1)"
  using find_changes_twice [OF enumerates_example no_items_fresh,
          of example_sub_dict example_delete True "[''etag'']" "[sg_old]" "[sg_new, sg_other]" Map.empty]
        enumerates_example no_items_fresh [of True "[''etag'']"]
  by simp


section \<open>Ephemeral changes\<close>

lemma modified_step_honor:
  "honor_ephemerals w \<Longrightarrow>
   modified_step sd del p c w =
     (let f = filter_ephemeral del (ephemeral_paths w) (config p, config c);
          w1 = (if sd (config p) \<noteq> sd (config c)
                then w\<lparr>ephemeral_items := ephemeral_items w @ [the (from_items (Some p) (Some c))]\<rparr>
                else w)
      in if sd (fst f) \<noteq> sd (snd f)
         then w1\<lparr>changed_items := changed_items w1 @
                   [the (from_items (Some (p\<lparr>new_config := fst f\<rparr>)) (Some (c\<lparr>new_config := snd f\<rparr>)))]\<rparr>
         else w1)"
  by (simp add: modified_step_def ephemerals_skipped_def Let_def from_items_new config_def
           split: prod.splits)

lemma modified_step_plain:
  "\<not> honor_ephemerals w \<Longrightarrow>
   modified_step sd del p c w =
     (if sd (config p) \<noteq> sd (config c)
      then w\<lparr>changed_items := changed_items w @ [the (from_items (Some p) (Some c))]\<rparr>
      else w)"
  by (simp add: modified_step_def ephemerals_skipped_def Let_def from_items_new)

lemma modified_step_changed_locations:
  "set (map location (changed_items (modified_step sd del p c w)))
     \<subseteq> insert (location c) (set (map location (changed_items w)))"
proof (cases "honor_ephemerals w")
  case True
  then show ?thesis
    by (auto simp: modified_step_honor Let_def location_from_items_new location_new_config)
next
  case False
  then show ?thesis
    by (auto simp: modified_step_plain location_from_items_new)
qed

lemma modified_step_changed_same:
  "honor_ephemerals w \<Longrightarrow>
   sd (fst (filter_ephemeral del (ephemeral_paths w) (config p, config c))) =
   sd (snd (filter_ephemeral del (ephemeral_paths w) (config p, config c))) \<Longrightarrow>
   changed_items (modified_step sd del p c w) = changed_items w"
  by (simp add: modified_step_honor Let_def)

lemma modified_step_mono:
  "set (changed_items w) \<subseteq> set (changed_items (modified_step sd del p c w))"
  "set (ephemeral_items w) \<subseteq> set (ephemeral_items (modified_step sd del p c w))"
  by (cases "honor_ephemerals w"; auto simp: modified_step_honor modified_step_plain Let_def)+

lemma modified_step_ephemeral_added:
  "honor_ephemerals w \<Longrightarrow> sd (config p) \<noteq> sd (config c) \<Longrightarrow>
   the (from_items (Some p) (Some c)) \<in> set (ephemeral_items (modified_step sd del p c w))"
  by (simp add: modified_step_honor Let_def)

lemma modified_step_changed_added:
  "\<not> honor_ephemerals w \<Longrightarrow> sd (config p) \<noteq> sd (config c) \<Longrightarrow>
   the (from_items (Some p) (Some c)) \<in> set (changed_items (modified_step sd del p c w))"
  by (simp add: modified_step_plain)

lemma fold_ephemeral_contains:
  assumes "honor_ephemerals w"
    and "sd (config (f l)) \<noteq> sd (config (g l))"
    and "l \<in> set ls \<or> the (from_items (Some (f l)) (Some (g l))) \<in> set (ephemeral_items w)"
  shows "the (from_items (Some (f l)) (Some (g l)))
           \<in> set (ephemeral_items (fold (\<lambda>x. modified_step sd del (f x) (g x)) ls w))"
  using assms
proof (induction ls arbitrary: w)
  case Nil
  then show ?case by simp
next
  case (Cons x xs)
  let ?w = "modified_step sd del (f x) (g x) w"
  have h: "honor_ephemerals ?w" using Cons.prems(1) by (simp add: modified_step_frame)
  have "l \<in> set xs \<or> the (from_items (Some (f l)) (Some (g l))) \<in> set (ephemeral_items ?w)"
  proof (cases "l = x")
    case True
    then show ?thesis
      using modified_step_ephemeral_added [OF Cons.prems(1), of sd "f x" "g x" del] Cons.prems(2)
      by simp
  next
    case False
    then show ?thesis
      using Cons.prems(3) modified_step_mono(2) [of w sd del "f x" "g x"] by auto
  qed
  from Cons.IH [OF h Cons.prems(2) this] show ?case by simp
qed

lemma fold_changed_contains:
  assumes "\<not> honor_ephemerals w"
    and "sd (config (f l)) \<noteq> sd (config (g l))"
    and "l \<in> set ls \<or> the (from_items (Some (f l)) (Some (g l))) \<in> set (changed_items w)"
  shows "the (from_items (Some (f l)) (Some (g l)))
           \<in> set (changed_items (fold (\<lambda>x. modified_step sd del (f x) (g x)) ls w))"
  using assms
proof (induction ls arbitrary: w)
  case Nil
  then show ?case by simp
next
  case (Cons x xs)
  let ?w = "modified_step sd del (f x) (g x) w"
  have h: "\<not> honor_ephemerals ?w" using Cons.prems(1) by (simp add: modified_step_frame)
  have "l \<in> set xs \<or> the (from_items (Some (f l)) (Some (g l))) \<in> set (changed_items ?w)"
  proof (cases "l = x")
    case True
    then show ?thesis
      using modified_step_changed_added [OF Cons.prems(1), of sd "f x" "g x" del] Cons.prems(2)
      by simp
  next
    case False
    then show ?thesis
      using Cons.prems(3) modified_step_mono(1) [of w sd del "f x" "g x"] by auto
  qed
  from Cons.IH [OF h Cons.prems(2) this] show ?case by simp
qed

lemma fold_changed_excludes:
  assumes "honor_ephemerals w"
    and "ephemeral_paths w = ps"
    and "\<forall>x \<in> set ls. location (g x) = x"
    and "sd (fst (filter_ephemeral del ps (config (f l), config (g l)))) =
         sd (snd (filter_ephemeral del ps (config (f l), config (g l))))"
    and "l \<notin> set (map location (changed_items w))"
  shows "l \<notin> set (map location (changed_items (fold (\<lambda>x. modified_step sd del (f x) (g x)) ls w)))"
  using assms
proof (induction ls arbitrary: w)
  case Nil
  then show ?case by simp
next
  case (Cons x xs)
  let ?w = "modified_step sd del (f x) (g x) w"
  have h: "honor_ephemerals ?w" using Cons.prems(1) by (simp add: modified_step_frame)
  have p: "ephemeral_paths ?w = ps" using Cons.prems(2) by (simp add: modified_step_frame)
  have r: "\<forall>x \<in> set xs. location (g x) = x" using Cons.prems(3) by simp
  have "l \<notin> set (map location (changed_items ?w))"
  proof (cases "l = x")
    case True
    have "changed_items ?w = changed_items w"
      using modified_step_changed_same [OF Cons.prems(1), of sd del "f x" "g x"]
            Cons.prems(2) Cons.prems(4) True by simp
    then show ?thesis using Cons.prems(5) by simp
  next
    case False
    have "location (g x) = x" using Cons.prems(3) by simp
    then show ?thesis
      using modified_step_changed_locations [of sd del "f x" "g x" w] Cons.prems(5) False
      by auto
  qed
  from Cons.IH [OF h p r Cons.prems(4) this] show ?case by simp
qed

text \<open>
  C5 as stated fails: \<^verbatim>\<open>find_modified\<close> skips every location the exception map covers.
  With an account-wide exception, a group whose only change is its etag is in no bucket,
  whether ephemeral paths are honoured or not.
\<close>

theorem suppressed_modification_example:
  "dict_of [sg_old] [''sg'', ''a1'', ''us-east-1'', ''sg-1''] = Some sg_old \<and>
   dict_of [sg_touched] [''sg'', ''a1'', ''us-east-1'', ''sg-1''] = Some sg_touched \<and>
   example_sub_dict (config sg_old) \<noteq> example_sub_dict (config sg_touched) \<and>
   filter_ephemeral example_delete [''etag''] (config sg_old, config sg_touched) =
     (JDict [(''rules'', JList [JStr ''22''])], JDict [(''rules'', JList [JStr ''22''])]) \<and>
   find_modified example_order example_sub_dict example_delete (fresh_watcher True [''etag''])
     [sg_old] [sg_touched] example_exceptions = Inr (fresh_watcher True [''etag'']) \<and>
   ephemeral_items (fresh_watcher True [''etag'']) = [] \<and>
   find_modified example_order example_sub_dict example_delete (fresh_watcher False [''etag''])
     [sg_old] [sg_touched] example_exceptions = Inr (fresh_watcher False [''etag'']) \<and>
   changed_items (fresh_watcher False [''etag'']) = []"
  by (simp add: run_defs)

text \<open>
  C5, amended. Let a location be in both snapshots and not covered by the exception map,
  let the canonical configurations of its two items differ, and let them agree once the
  ephemeral paths are deleted from both. Starting from empty buckets, \<^verbatim>\<open>find_modified\<close>
  puts the record of the two items into the ephemeral bucket and no record of the location
  into the changed bucket when \<^verbatim>\<open>honor_ephemerals\<close> is set, and puts the record into the
  changed bucket when it is not set.
\<close>

theorem ephemeral_only_delta:
  assumes "enumerates order" and "no_items w"
    and "dict_of previous l = Some p" and "dict_of current l = Some c"
    and "\<not> locationInExceptionMap l m"
    and "sub_dict (config p) \<noteq> sub_dict (config c)"
    and "sub_dict (fst (filter_ephemeral delete (ephemeral_paths w) (config p, config c))) =
         sub_dict (snd (filter_ephemeral delete (ephemeral_paths w) (config p, config c)))"
  shows "\<exists>w'. find_modified order sub_dict delete w previous current m = Inr w' \<and>
           (honor_ephemerals w \<longrightarrow>
              from_items (Some p) (Some c) \<in> Some ` set (ephemeral_items w') \<and>
              l \<notin> set (map location (changed_items w'))) \<and>
           (\<not> honor_ephemerals w \<longrightarrow>
              from_items (Some p) (Some c) \<in> Some ` set (changed_items w'))"
proof -
  let ?f = "\<lambda>x. the (dict_of previous x)" and ?g = "\<lambda>x. the (dict_of current x)"
  let ?ls = "modified_locations order previous current m"
  let ?w = "fold (\<lambda>x. modified_step sub_dict delete (?f x) (?g x)) ?ls w"
  have run: "find_modified order sub_dict delete w previous current m = Inr ?w"
    by (rule find_modified_eq [OF assms(1)])
  have lp: "l \<in> set (map location previous)" and lc: "l \<in> set (map location current)"
    using assms(3,4) dom_dict_of [of previous] dom_dict_of [of current] by blast+
  have mem: "l \<in> set ?ls"
    using lp lc assms(5) by (simp add: set_modified_locations [OF assms(1)])
  have fl: "?f l = p" and gl: "?g l = c" using assms(3,4) by simp_all
  have rec: "Some (the (from_items (Some p) (Some c))) = from_items (Some p) (Some c)"
    by (rule Some_the_from_items_new)
  have locs: "\<forall>x \<in> set ?ls. location (?g x) = x"
    using set_modified_locations [OF assms(1), of previous current m]
    by (auto simp: location_dict_of)
  have honor: "from_items (Some p) (Some c) \<in> Some ` set (ephemeral_items ?w) \<and>
               l \<notin> set (map location (changed_items ?w))" if h: "honor_ephemerals w"
  proof
    have "the (from_items (Some (?f l)) (Some (?g l))) \<in> set (ephemeral_items ?w)"
      by (rule fold_ephemeral_contains [OF h]) (use assms(6) fl gl mem in simp_all)
    then have "the (from_items (Some p) (Some c)) \<in> set (ephemeral_items ?w)"
      by (simp only: fl gl)
    then show "from_items (Some p) (Some c) \<in> Some ` set (ephemeral_items ?w)"
      using rec by (metis imageI)
    have "changed_items w = []" using assms(2) by (simp add: no_items_def)
    then have start: "l \<notin> set (map location (changed_items w))" by simp
    show "l \<notin> set (map location (changed_items ?w))"
      by (rule fold_changed_excludes [OF h refl locs _ start]) (use assms(7) fl gl in simp)
  qed
  have plain: "from_items (Some p) (Some c) \<in> Some ` set (changed_items ?w)"
    if h: "\<not> honor_ephemerals w"
  proof -
    have "the (from_items (Some (?f l)) (Some (?g l))) \<in> set (changed_items ?w)"
      by (rule fold_changed_contains [OF h]) (use assms(6) fl gl mem in simp_all)
    then have "the (from_items (Some p) (Some c)) \<in> set (changed_items ?w)"
      by (simp only: fl gl)
    then show ?thesis using rec by (metis imageI)
  qed
  show ?thesis using run honor plain by blast
qed

text \<open>
  C5, amended, at the group whose etag alone changed, with and without
  \<^verbatim>\<open>honor_ephemerals\<close>.
\<close>

theorem ephemeral_only_delta_witness:
  "enumerates example_order \<and>
   dict_of [sg_old] [''sg'', ''a1'', ''us-east-1'', ''sg-1''] = Some sg_old \<and>
   dict_of [sg_touched] [''sg'', ''a1'', ''us-east-1'', ''sg-1''] = Some sg_touched \<and>
   \<not> locationInExceptionMap [''sg'', ''a1'', ''us-east-1'', ''sg-1''] Map.empty \<and>
   example_sub_dict (config sg_old) \<noteq> example_sub_dict (config sg_touched) \<and>
   (\<exists>w'. find_modified example_order example_sub_dict example_delete
           (fresh_watcher True [''etag'']) [sg_old] [sg_touched] Map.empty = Inr w' \<and>
         from_items (Some sg_old) (Some sg_touched) \<in> Some ` set (ephemeral_items w') \<and>
         [''sg'', ''a1'', ''us-east-1'', ''sg-1''] \<notin> set (map location (changed_items w'))) \<and>
   (\<exists>w'. find_modified example_order example_sub_dict example_delete
           (fresh_watcher False [''etag'']) [sg_old] [sg_touched] Map.empty = Inr w' \<and>
         from_items (Some sg_old) (Some sg_touched) \<in> Some ` set (changed_items w'))"
proof -
  let ?l = "[''sg'', ''a1'', ''us-east-1'', ''sg-1'']"
  have p: "dict_of [sg_old] ?l = Some sg_old" by (simp add: run_defs)
  have c: "dict_of [sg_touched] ?l = Some sg_touched" by (simp add: run_defs)
  have x: "\<not> locationInExceptionMap ?l Map.empty" by (simp add: locationInExceptionMap_def)
  have d: "example_sub_dict (config sg_old) \<noteq> example_sub_dict (config sg_touched)"
    by (simp add: run_defs)
  have e: "example_sub_dict (fst (filter_ephemeral example_delete
              (ephemeral_paths (fresh_watcher h [''etag''])) (config sg_old, config sg_touched))) =
           example_sub_dict (snd (filter_ephemeral example_delete
              (ephemeral_paths (fresh_watcher h [''etag''])) (config sg_old, config sg_touched)))" for h
    by (simp add: run_defs)
  have ht: "honor_ephemerals (fresh_watcher True [''etag''])"
    and hf: "\<not> honor_ephemerals (fresh_watcher False [''etag''])"
    by (simp_all add: fresh_watcher_def)
  show ?thesis
    using ephemeral_only_delta [OF enumerates_example no_items_fresh p c x d e [of True]]
          ephemeral_only_delta [OF enumerates_example no_items_fresh p c x d e [of False]]
          enumerates_example p c x d ht hf
    by simp
qed


section \<open>What save stores\<close>

lemma fold_ChangeItem_save:
  "fold ChangeItem_save items ds = ds @ concat (map (\<lambda>item. ChangeItem_save item []) items)"
  by (induction items arbitrary: ds) (simp_all add: ChangeItem_save_def)

text \<open>
  C2 as stated fails: with \<^verbatim>\<open>honor_ephemerals\<close> set, \<^verbatim>\<open>save\<close> takes the ephemeral bucket
  in place of the changed bucket. After a cycle that finds a durable change, the changed
  bucket holds the record without the etag and the ephemeral bucket the record with it; the
  only call of \<^verbatim>\<open>store\<close> is the one for the ephemeral record, and it differs from the
  call the changed record would make.
\<close>

theorem save_skips_changed_bucket:
  "find_changes example_order example_sub_dict example_delete (fresh_watcher True [''etag''])
     [sg_old] [sg_new] Map.empty =
   Inr ((fresh_watcher True [''etag''])
          \<lparr>changed_items := [sg_change_durable], ephemeral_items := [sg_change_full]\<rparr>) \<and>
   save ((fresh_watcher True [''etag''])
          \<lparr>changed_items := [sg_change_durable], ephemeral_items := [sg_change_full]\<rparr>) [] =
     ChangeItem_save sg_change_full [] \<and>
   ChangeItem_save sg_change_durable [] \<noteq> ChangeItem_save sg_change_full []"
proof -
  have "save ((fresh_watcher True [''etag''])
          \<lparr>changed_items := [sg_change_durable], ephemeral_items := [sg_change_full]\<rparr>) [] =
     ChangeItem_save sg_change_full []"
    by (simp add: save_def fresh_watcher_def Watcher_init_def ephemerals_skipped_def)
  moreover have "ChangeItem_save sg_change_durable [] \<noteq> ChangeItem_save sg_change_full []"
    by (simp add: ChangeItem_save_def sg_change_durable_def sg_change_full_def ChangeItem_init_def)
  ultimately show ?thesis using run_changed_honor by simp
qed

text \<open>
  C2, amended. \<^verbatim>\<open>save\<close> calls \<^verbatim>\<open>store\<close> once for every record of the created bucket,
  then of the deleted bucket, and then of the ephemeral bucket when \<^verbatim>\<open>honor_ephemerals\<close>
  is set, of the changed bucket when it is not. With \<^verbatim>\<open>honor_ephemerals\<close> set the changed
  bucket has no effect on what is stored; without it the ephemeral bucket has none.
\<close>

theorem save_stores:
  "save w ds = ds @ concat (map (\<lambda>item. ChangeItem_save item [])
                 (created_items w @ deleted_items w @
                  (if honor_ephemerals w then ephemeral_items w else changed_items w))) \<and>
   (honor_ephemerals w \<longrightarrow> save (w\<lparr>changed_items := others\<rparr>) ds = save w ds) \<and>
   (\<not> honor_ephemerals w \<longrightarrow> save (w\<lparr>ephemeral_items := others\<rparr>) ds = save w ds)"
  by (simp add: save_def Let_def ephemerals_skipped_def fold_ChangeItem_save)

text \<open>
  C2, amended, at a datastore that already holds one call, with the flag set, and at an
  empty datastore without it.
\<close>

theorem save_stores_witness:
  "save ((fresh_watcher True [''etag''])
          \<lparr>changed_items := [sg_change_durable], ephemeral_items := [sg_change_full]\<rparr>)
        (ChangeItem_save sg_other_created []) =
     ChangeItem_save sg_other_created [] @ ChangeItem_save sg_change_full [] \<and>
   save ((fresh_watcher False [''etag''])
          \<lparr>created_items := [sg_other_created], changed_items := [sg_change_full]\<rparr>) [] =
     ChangeItem_save sg_other_created [] @ ChangeItem_save sg_change_full []"
  using save_stores [of "(fresh_watcher True [''etag''])
          \<lparr>changed_items := [sg_change_durable], ephemeral_items := [sg_change_full]\<rparr>"
          "ChangeItem_save sg_other_created []" "[]"]
        save_stores [of "(fresh_watcher False [''etag''])
          \<lparr>created_items := [sg_other_created], changed_items := [sg_change_full]\<rparr>" "[]" "[]"]
  by (simp add: fresh_watcher_def Watcher_init_def)


section \<open>Whether anything changed\<close>

text \<open>
  C10. \<^verbatim>\<open>is_changed\<close> returns a true value exactly when the deleted, the created or the
  changed bucket is nonempty. So when \<^verbatim>\<open>honor_ephemerals\<close> is set and only the ephemeral
  bucket has records, it reports no change.
\<close>

theorem is_changed_iff:
  "(truthy (is_changed w) \<longleftrightarrow>
      deleted_items w \<noteq> [] \<or> created_items w \<noteq> [] \<or> changed_items w \<noteq> []) \<and>
   (honor_ephemerals w \<and> ephemeral_items w \<noteq> [] \<and>
    deleted_items w = [] \<and> created_items w = [] \<and> changed_items w = []
      \<longrightarrow> \<not> truthy (is_changed w))"
  by (simp add: is_changed_def truthy_def)

text \<open>
  C10 after a cycle that finds only a changed etag, and at a watcher with a durable
  change.
\<close>

theorem is_changed_iff_witness:
  "find_changes example_order example_sub_dict example_delete (fresh_watcher True [''etag''])
     [sg_old] [sg_touched] Map.empty =
   Inr ((fresh_watcher True [''etag''])\<lparr>ephemeral_items := [sg_change_touched]\<rparr>) \<and>
   honor_ephemerals ((fresh_watcher True [''etag''])\<lparr>ephemeral_items := [sg_change_touched]\<rparr>) \<and>
   \<not> truthy (is_changed ((fresh_watcher True [''etag''])\<lparr>ephemeral_items := [sg_change_touched]\<rparr>)) \<and>
   truthy (is_changed ((fresh_watcher True [''etag''])\<lparr>changed_items := [sg_change_durable],
                                                        ephemeral_items := [sg_change_full]\<rparr>))"
  using is_changed_iff [of "(fresh_watcher True [''etag''])\<lparr>ephemeral_items := [sg_change_touched]\<rparr>"]
        is_changed_iff [of "(fresh_watcher True [''etag''])\<lparr>changed_items := [sg_change_durable],
                                                        ephemeral_items := [sg_change_full]\<rparr>"]
        run_touched_honor
  by (simp add: fresh_watcher_def Watcher_init_def)

end
